theory Spec2Isabelle
  imports Main
begin

section \<open>The log endpoint of the resource exporter\<close>

text \<open>
  A shallow embedding of \<^verbatim>\<open>get_logs\<close> of \<^verbatim>\<open>script.py\<close>: the handler that returns
  the last lines of a log file by scanning it backwards in blocks of 8192 bytes.

  Python \<^verbatim>\<open>bytes\<close> are lists of \<^typ>\<open>char\<close> (one \<^typ>\<open>char\<close> is one octet), Python
  \<^verbatim>\<open>str\<close> are lists of Unicode code points, Python \<^verbatim>\<open>int\<close> is \<^typ>\<open>int\<close>.
  An exception is the \<open>Inl\<close> of a sum; a loop that does not return is \<open>None\<close>.
\<close>

type_synonym bytes = "char list"
type_synonym str = "nat list"

definition py_str :: "string \<Rightarrow> str" where
  \<comment> \<open>An ASCII literal as a Python \<^verbatim>\<open>str\<close>.\<close>
  "py_str s = map of_char s"

text \<open>
  The exceptions that matter here: the response that the handler raises itself, with its
  status and detail, \<^verbatim>\<open>PermissionError\<close>, and \<open>OSError\<close> for every other error of the
  operating system (\<^verbatim>\<open>PermissionError\<close> is the one \<^verbatim>\<open>OSError\<close> that the handler
  catches). An exception that leaves the handler is its outcome as it is.
\<close>

datatype exn = HTTPException nat string | PermissionError | OSError

subsection \<open>Built-ins on bytes and lists\<close>

definition LF :: char where "LF = CHR 0x0A"
definition CR :: char where "CR = CHR 0x0D"

definition is_linebreak :: "char \<Rightarrow> bool" where
  "is_linebreak c \<longleftrightarrow> c = LF \<or> c = CR"

definition count_bytes :: "bytes \<Rightarrow> char \<Rightarrow> nat" where
  \<comment> \<open>\<^verbatim>\<open>data.count(b)\<close> for a pattern \<^verbatim>\<open>b\<close> of one byte.\<close>
  "count_bytes data c = length (filter (\<lambda>x. x = c) data)"

text \<open>
  \<^verbatim>\<open>bytes.splitlines()\<close>: scan to the next \<^verbatim>\<open>\n\<close> or \<^verbatim>\<open>\r\<close>, emit the bytes before
  it, skip the break (\<^verbatim>\<open>\r\n\<close> is one break), repeat while bytes remain. A final
  fragment without a break is a line; nothing follows a final break.
\<close>

function splitlines :: "bytes \<Rightarrow> bytes list" where
  "splitlines s =
     (if s = [] then []
      else
        (let line = takeWhile (\<lambda>c. \<not> is_linebreak c) s;
             rest = dropWhile (\<lambda>c. \<not> is_linebreak c) s
         in case rest of
              [] \<Rightarrow> [line]
            | c # r \<Rightarrow>
                (if c = CR \<and> take 1 r = [LF] then line # splitlines (drop 1 r)
                 else line # splitlines r)))"
  by pat_completeness auto
termination
proof (relation "measure length")
  show "wf (measure length)" by simp
next
  fix s :: bytes and x xa x21 x22
  assume "s \<noteq> []" "xa = dropWhile (\<lambda>c. \<not> is_linebreak c) s" "xa = x21 # x22"
  then have "length (x21 # x22) \<le> length s"
    by (metis length_dropWhile_le)
  then show "(drop 1 x22, s) \<in> measure length" by simp
next
  fix s :: bytes and x xa x21 x22
  assume "s \<noteq> []" "xa = dropWhile (\<lambda>c. \<not> is_linebreak c) s" "xa = x21 # x22"
  then have "length (x21 # x22) \<le> length s"
    by (metis length_dropWhile_le)
  then show "(x22, s) \<in> measure length" by simp
qed

declare splitlines.simps [simp del]

definition slice_from :: "int \<Rightarrow> 'a list \<Rightarrow> 'a list" where
  \<comment> \<open>\<^verbatim>\<open>xs[start:]\<close>: a negative start counts from the end, and both are clamped.\<close>
  "slice_from start xs =
     (let n = int (length xs);
          s = (if start < 0 then max 0 (start + n) else min start n)
      in drop (nat s) xs)"

subsection \<open>Decoding\<close>

text \<open>
  \<^verbatim>\<open>ln.decode(errors="ignore")\<close>: the UTF-8 codec with the handler that skips what it
  cannot decode. The decoder works on the values of the bytes. An ill-formed sequence is
  skipped up to the byte that broke it, and decoding resumes at that byte; a sequence cut
  off by the end of the data is skipped whole.
\<close>

definition is_continuation :: "nat \<Rightarrow> bool" where
  "is_continuation c \<longleftrightarrow> 0x80 \<le> c \<and> c < 0xC0"

fun utf8_ignore :: "nat list \<Rightarrow> nat list" where
  "utf8_ignore [] = []"
| "utf8_ignore (c # s) =
     (if c < 0x80 then c # utf8_ignore s
      else if c < 0xC2 then utf8_ignore s
      else if c < 0xE0 then
        (case s of
           [] \<Rightarrow> []
         | c2 # s2 \<Rightarrow>
             if \<not> is_continuation c2 then utf8_ignore s
             else ((c - 0xC0) * 0x40 + (c2 - 0x80)) # utf8_ignore s2)
      else if c < 0xF0 then
        (case s of
           [] \<Rightarrow> []
         | c2 # s2 \<Rightarrow>
             if \<not> is_continuation c2 \<or> (if c2 < 0xA0 then c = 0xE0 else c = 0xED)
             then utf8_ignore s
             else
               (case s2 of
                  [] \<Rightarrow> []
                | c3 # s3 \<Rightarrow>
                    if \<not> is_continuation c3 then utf8_ignore s2
                    else ((c - 0xE0) * 0x1000 + (c2 - 0x80) * 0x40 + (c3 - 0x80))
                           # utf8_ignore s3))
      else if c < 0xF5 then
        (case s of
           [] \<Rightarrow> []
         | c2 # s2 \<Rightarrow>
             if \<not> is_continuation c2 \<or> (if c2 < 0x90 then c = 0xF0 else c = 0xF4)
             then utf8_ignore s
             else
               (case s2 of
                  [] \<Rightarrow> []
                | c3 # s3 \<Rightarrow>
                    if \<not> is_continuation c3 then utf8_ignore s2
                    else
                      (case s3 of
                         [] \<Rightarrow> []
                       | c4 # s4 \<Rightarrow>
                           if \<not> is_continuation c4 then utf8_ignore s3
                           else ((c - 0xF0) * 0x40000 + (c2 - 0x80) * 0x1000
                                   + (c3 - 0x80) * 0x40 + (c4 - 0x80))
                                  # utf8_ignore s4)))
      else utf8_ignore s)"

definition decode :: "bytes \<Rightarrow> str" where
  "decode b = utf8_ignore (map of_char b)"

subsection \<open>Paths and the file system\<close>

text \<open>
  \<^verbatim>\<open>Path(file)\<close> on a POSIX host keeps a root (\<^verbatim>\<open>/\<close>, \<^verbatim>\<open>//\<close> or none) and the
  components of the rest that are neither empty nor \<^verbatim>\<open>.\<close>; \<^verbatim>\<open>str(path)\<close> joins them
  again and is \<^verbatim>\<open>.\<close> for the empty path. No \<^verbatim>\<open>..\<close> is resolved and nothing is looked
  up on disk.
\<close>

definition SEP :: nat where "SEP = 0x2F"
definition DOT :: nat where "DOT = 0x2E"

fun split_sep :: "str \<Rightarrow> str list" where
  \<comment> \<open>\<^verbatim>\<open>rel.split('/')\<close>\<close>
  "split_sep [] = [[]]"
| "split_sep (c # cs) =
     (if c = SEP then [] # split_sep cs
      else (case split_sep cs of [] \<Rightarrow> [[c]] | l # ls \<Rightarrow> (c # l) # ls))"

fun join_sep :: "str list \<Rightarrow> str" where
  \<comment> \<open>\<^verbatim>\<open>'/'.join(tail)\<close>\<close>
  "join_sep [] = []"
| "join_sep [x] = x"
| "join_sep (x # y # ys) = x @ SEP # join_sep (y # ys)"

definition splitroot :: "str \<Rightarrow> str \<times> str" where
  "splitroot p =
     (if take 1 p \<noteq> [SEP] then ([], p)
      else if take 1 (drop 1 p) \<noteq> [SEP] \<or> take 1 (drop 2 p) = [SEP] then ([SEP], drop 1 p)
      else ([SEP, SEP], drop 2 p))"

datatype path = PurePath (root: str) (parts: "str list")

definition Path :: "str \<Rightarrow> path" where
  "Path p =
     (if p = [] then PurePath [] []
      else
        (let (rt, rel) = splitroot p
         in PurePath rt (filter (\<lambda>x. x \<noteq> [] \<and> x \<noteq> [DOT]) (split_sep rel))))"

definition str_of_path :: "path \<Rightarrow> str" where
  \<comment> \<open>\<^verbatim>\<open>str(path)\<close>\<close>
  "str_of_path p =
     (let s = root p @ join_sep (parts p) in if s = [] then [DOT] else s)"

text \<open>
  The file system as the handler sees it: what a path string names, if anything.
  \<^item> \<open>Unreachable\<close>: the path lies below a directory that the caller may not search, so
    that looking at it (\<^verbatim>\<open>stat\<close>) fails with \<^verbatim>\<open>EACCES\<close>;
  \<^item> \<open>Directory\<close>: something that is there and is not a regular file;
  \<^item> \<open>RegularFile\<close>: an ordinary regular file, with its content, open to the caller for
    reading or not;
  \<^item> \<open>FailingFile\<close>: a regular file whose \<^verbatim>\<open>open\<close> fails for another reason than
    permission (an error of the device, a stale handle of a network file system);
  \<^item> \<open>PseudoFile\<close>: a regular file of the kernel, as \<^verbatim>\<open>/proc/cpuinfo\<close>, that opens and
    reads but refuses to be positioned from its end (\<^verbatim>\<open>EINVAL\<close>).
\<close>

datatype node =
    Unreachable
  | Directory
  | RegularFile (readable: bool) (stored: bytes)
  | FailingFile
  | PseudoFile (shown: bytes)

type_synonym filesystem = "str \<Rightarrow> node option"

text \<open>
  \<^verbatim>\<open>path.exists()\<close> and \<^verbatim>\<open>path.is_file()\<close> call \<^verbatim>\<open>path.stat()\<close>. They answer
  \<^verbatim>\<open>False\<close> when it fails because nothing is there (\<^verbatim>\<open>ENOENT\<close>, \<^verbatim>\<open>ENOTDIR\<close>,
  \<^verbatim>\<open>EBADF\<close>, \<^verbatim>\<open>ELOOP\<close>) and raise its error again otherwise.
\<close>

definition stat :: "filesystem \<Rightarrow> path \<Rightarrow> exn + node option" where
  "stat fs p =
     (case fs (str_of_path p) of
        Some Unreachable \<Rightarrow> Inl PermissionError
      | r \<Rightarrow> Inr r)"

definition path_exists :: "filesystem \<Rightarrow> path \<Rightarrow> exn + bool" where
  "path_exists fs p =
     (case stat fs p of
        Inl e \<Rightarrow> Inl e
      | Inr r \<Rightarrow> Inr (r \<noteq> None))"

definition is_file :: "filesystem \<Rightarrow> path \<Rightarrow> exn + bool" where
  "is_file fs p =
     (case stat fs p of
        Inl e \<Rightarrow> Inl e
      | Inr r \<Rightarrow> Inr (case r of None \<Rightarrow> False | Some Directory \<Rightarrow> False | Some _ \<Rightarrow> True))"

subsection \<open>An open binary file\<close>

text \<open>
  The handle of \<^verbatim>\<open>path.open("rb")\<close>: the content, the position that \<^verbatim>\<open>f.tell()\<close>
  reports, two counters that the program cannot see, of the calls of \<^verbatim>\<open>read\<close> and
  of \<^verbatim>\<open>seek\<close> made so far, and whether the file lets itself be positioned from its
  end.
\<close>

record handle =
  h_content :: bytes
  h_pos :: nat
  h_reads :: nat
  h_seeks :: nat
  h_seek_end :: bool

datatype whence = SEEK_CUR | SEEK_END

definition path_open :: "filesystem \<Rightarrow> path \<Rightarrow> exn + handle" where
  "path_open fs p =
     (case fs (str_of_path p) of
        Some (RegularFile r c) \<Rightarrow>
          if r then Inr \<lparr>h_content = c, h_pos = 0, h_reads = 0, h_seeks = 0, h_seek_end = True\<rparr>
          else Inl PermissionError
      | Some (PseudoFile c) \<Rightarrow>
          Inr \<lparr>h_content = c, h_pos = 0, h_reads = 0, h_seeks = 0, h_seek_end = False\<rparr>
      | Some Unreachable \<Rightarrow> Inl PermissionError
      | _ \<Rightarrow> Inl OSError)"

definition tell :: "handle \<Rightarrow> int" where
  "tell f = int (h_pos f)"

definition seek :: "int \<Rightarrow> whence \<Rightarrow> handle \<Rightarrow> exn + handle" where
  \<comment> \<open>A position before the start of the file is refused (\<^verbatim>\<open>EINVAL\<close>), and so is
    positioning from the end on a file that does not allow it.\<close>
  "seek off w f =
     (if w = SEEK_END \<and> \<not> h_seek_end f then Inl OSError
      else
        (let base = (case w of SEEK_CUR \<Rightarrow> tell f | SEEK_END \<Rightarrow> int (length (h_content f)));
             target = base + off
         in if target < 0 then Inl OSError
            else Inr (f\<lparr>h_pos := nat target, h_seeks := Suc (h_seeks f)\<rparr>)))"

definition read :: "int \<Rightarrow> handle \<Rightarrow> bytes \<times> handle" where
  \<comment> \<open>\<^verbatim>\<open>f.read(n)\<close> for \<open>n \<ge> 0\<close>: up to \<open>n\<close> bytes from the position, which moves past them.\<close>
  "read n f =
     (let chunk = take (nat n) (drop (h_pos f) (h_content f))
      in (chunk, f\<lparr>h_pos := h_pos f + length chunk, h_reads := Suc (h_reads f)\<rparr>))"

subsection \<open>The handler\<close>

record LogLines =
  logfile :: str
  lines :: "str list"

definition block :: int where "block = 8192"

definition loop_body :: "handle \<Rightarrow> bytes \<Rightarrow> exn + handle \<times> bytes" where
  \<comment> \<open>Lines 148 to 151: one step back, one read, and back again to where the read began.\<close>
  "loop_body f data =
     (let jump = min (tell f) block
      in case seek (- jump) SEEK_CUR f of
           Inl e \<Rightarrow> Inl e
         | Inr f1 \<Rightarrow>
             (let (chunk, f2) = read jump f1
              in case seek (- jump) SEEK_CUR f2 of
                   Inl e \<Rightarrow> Inl e
                 | Inr f3 \<Rightarrow> Inr (f3, chunk @ data)))"

partial_function (option) tail_loop :: "int \<Rightarrow> handle \<Rightarrow> bytes \<Rightarrow> (exn + handle \<times> bytes) option"
where
  "tail_loop n f data =
     (if tell f > 0 \<and> int (count_bytes data LF) \<le> n then
        (case loop_body f data of
           Inl e \<Rightarrow> Some (Inl e)
         | Inr (f', data') \<Rightarrow> tail_loop n f' data')
      else Some (Inr (f, data)))"

declare tail_loop.simps [code]

definition read_tail :: "int \<Rightarrow> handle \<Rightarrow> (exn + bytes list) option" where
  \<comment> \<open>Lines 144 to 152, the body of the \<^verbatim>\<open>with\<close> block.\<close>
  "read_tail n f =
     (case seek 0 SEEK_END f of
        Inl e \<Rightarrow> Some (Inl e)
      | Inr f0 \<Rightarrow>
          (case tail_loop n f0 [] of
             None \<Rightarrow> None
           | Some (Inl e) \<Rightarrow> Some (Inl e)
           | Some (Inr (f', data)) \<Rightarrow> Some (Inr (slice_from (- n) (splitlines data)))))"

definition get_logs :: "filesystem \<Rightarrow> str \<Rightarrow> int \<Rightarrow> (exn + LogLines) option" where
  "get_logs fs fname n =
     (let p = Path fname
      in case (case path_exists fs p of
                 Inl e \<Rightarrow> Inl e
               | Inr there \<Rightarrow> if there then is_file fs p else Inr False) of
           Inl e \<Rightarrow> Some (Inl e)
         | Inr found \<Rightarrow>
             if \<not> found
             then Some (Inl (HTTPException 404 ''Log file not found''))
             else
               (case (case path_open fs p of
                        Inl e \<Rightarrow> Some (Inl e)
                      | Inr f \<Rightarrow>
                          (case read_tail n f of
                             None \<Rightarrow> None
                           | Some (Inl e) \<Rightarrow> Some (Inl e)
                           | Some (Inr lns) \<Rightarrow>
                               Some (Inr \<lparr>logfile = str_of_path p, lines = map decode lns\<rparr>))) of
                  None \<Rightarrow> None
                | Some (Inl PermissionError) \<Rightarrow>
                    Some (Inl (HTTPException 403 ''Permission denied''))
                | Some r \<Rightarrow> Some r))"

subsection \<open>The scan, seen from the content\<close>

text \<open>
  Two functions used in the proofs only. From a position \<open>p\<close> in a file of content
  \<open>c\<close>, the loop of \<^const>\<open>tail_loop\<close> steps back while \<open>p\<close> is positive and the
  bytes from \<open>p\<close> on hold at most \<open>n\<close> newlines: \<open>stop_pos\<close> is the position
  where it stops and \<open>rounds\<close> the number of steps it takes.
\<close>

function stop_pos :: "int \<Rightarrow> bytes \<Rightarrow> nat \<Rightarrow> nat" where
  "stop_pos n c p =
     (if 0 < p \<and> int (count_bytes (drop p c) LF) \<le> n then stop_pos n c (p - min p 8192)
      else p)"
  by pat_completeness auto
termination
  by (relation "measure (\<lambda>(n, c, p). p)") auto

function rounds :: "int \<Rightarrow> bytes \<Rightarrow> nat \<Rightarrow> nat" where
  "rounds n c p =
     (if 0 < p \<and> int (count_bytes (drop p c) LF) \<le> n then Suc (rounds n c (p - min p 8192))
      else 0)"
  by pat_completeness auto
termination
  by (relation "measure (\<lambda>(n, c, p). p)") auto

declare stop_pos.simps [simp del] rounds.simps [simp del]

subsection \<open>Example inputs\<close>

text \<open>
  A small file system for the examples: a readable log file of a given content, the
  directory it is in, and a regular file the caller may not read.
\<close>

definition example_fs :: "bytes \<Rightarrow> filesystem" where
  "example_fs c =
     (\<lambda>p. if p = py_str ''/var/log/app.log'' then Some (RegularFile True c)
          else if p = py_str ''/var/log'' then Some Directory
          else if p = py_str ''/etc/shadow'' then Some (RegularFile False ''root'')
          else None)"

text \<open>
  Two contents: three short lines, and a line of 40960 bytes followed by a last line of
  one byte that no line break ends.
\<close>

definition abc_log :: bytes where
  "abc_log = ''a'' @ [LF] @ ''b'' @ [LF] @ ''c'' @ [LF]"

definition long_line :: bytes where
  "long_line = replicate 40960 (CHR ''x'')"

definition long_log :: bytes where
  "long_log = long_line @ [LF] @ ''a''"

text \<open>
  A line with a byte that is not UTF-8 between two letters, and the file of that line.
  \<open>U+FFFD\<close> is the character that a decoder which replaces puts for such a byte.
\<close>

definition bad_line :: bytes where
  "bad_line = [CHR ''a'', CHR 0xFF, CHR ''b'']"

definition bad_log :: bytes where
  "bad_log = bad_line @ [LF]"

definition REPLACEMENT_CHARACTER :: nat where
  "REPLACEMENT_CHARACTER = 0xFFFD"

text \<open>
  A file system with one readable file, reached by a path with a \<^verbatim>\<open>..\<close> in it.
\<close>

definition dotdot_fs :: filesystem where
  "dotdot_fs =
     (\<lambda>p. if p = py_str ''/var/log/../log/app.log'' then Some (RegularFile True ''x'') else None)"

text \<open>
  A file system with a log file below a directory that the caller may not search, a file
  of the kernel, and a regular file whose \<^verbatim>\<open>open\<close> fails with an error of the device.
\<close>

definition special_fs :: filesystem where
  "special_fs =
     (\<lambda>p. if p = py_str ''/srv/private/app.log'' then Some Unreachable
          else if p = py_str ''/proc/cpuinfo'' then Some (PseudoFile ''processor'')
          else if p = py_str ''/mnt/stale/app.log'' then Some FailingFile
          else None)"

subsection \<open>Canonical paths\<close>

text \<open>
  A canonical path in the usual sense (that of POSIX \<^verbatim>\<open>realpath\<close>) is absolute and has no
  empty, \<^verbatim>\<open>.\<close> or \<^verbatim>\<open>..\<close> component. That it goes through no symbolic link is not
  expressed here.
\<close>

definition canonical :: "str \<Rightarrow> bool" where
  "canonical s \<longleftrightarrow>
     take 1 s = [SEP] \<and>
     (s = [SEP] \<or>
      list_all (\<lambda>x. x \<noteq> [] \<and> x \<noteq> [DOT] \<and> x \<noteq> [DOT, DOT]) (split_sep (drop 1 s)))"

subsection \<open>One step of the decoder\<close>

text \<open>
  Used in the proofs only: what the decoder makes of a first byte \<open>c\<close> before the
  bytes \<open>s\<close>. It stops, or goes on behind some of \<open>s\<close>, after no output or after one code
  point, which is \<open>c\<close> itself when \<open>c\<close> is ASCII and at least \<open>0x80\<close> otherwise.
\<close>

definition decoded_step :: "nat \<Rightarrow> nat list \<Rightarrow> nat list \<Rightarrow> bool" where
  "decoded_step c s out \<longleftrightarrow>
     out = [] \<or> (\<exists>k. out = utf8_ignore (drop k s))
     \<or> (\<exists>v k. out = v # utf8_ignore (drop k s) \<and> (v = c \<and> c < 0x80 \<or> 0x80 \<le> v))"

section \<open>Properties\<close>

subsection \<open>Splitting into lines\<close>

lemma splitlines_Nil [simp]: "splitlines [] = []"
  by (simp add: splitlines.simps)

lemma splitlines_LF [simp]: "splitlines (LF # cs) = [] # splitlines cs"
  by (subst splitlines.simps) (simp add: is_linebreak_def LF_def CR_def)

lemma splitlines_CRLF [simp]: "splitlines (CR # LF # cs) = [] # splitlines cs"
  by (subst splitlines.simps) (simp add: is_linebreak_def)

lemma splitlines_CR: "take 1 cs \<noteq> [LF] \<Longrightarrow> splitlines (CR # cs) = [] # splitlines cs"
  by (subst splitlines.simps) (simp add: is_linebreak_def)

lemma splitlines_plain:
  assumes "\<not> is_linebreak c"
  shows "splitlines (c # cs) = (case splitlines cs of [] \<Rightarrow> [[c]] | l # ls \<Rightarrow> (c # l) # ls)"
proof (cases cs)
  case Nil
  with assms show ?thesis by (simp add: splitlines.simps)
next
  case (Cons d ds)
  have "splitlines (c # cs) =
      (case dropWhile (\<lambda>c. \<not> is_linebreak c) cs of
         [] \<Rightarrow> [c # takeWhile (\<lambda>c. \<not> is_linebreak c) cs]
       | x # r \<Rightarrow> if x = CR \<and> take 1 r = [LF]
            then (c # takeWhile (\<lambda>c. \<not> is_linebreak c) cs) # splitlines (drop 1 r)
            else (c # takeWhile (\<lambda>c. \<not> is_linebreak c) cs) # splitlines r)"
    using assms by (subst splitlines.simps) (simp add: Let_def del: One_nat_def)
  moreover have "splitlines cs =
      (case dropWhile (\<lambda>c. \<not> is_linebreak c) cs of
         [] \<Rightarrow> [takeWhile (\<lambda>c. \<not> is_linebreak c) cs]
       | x # r \<Rightarrow> if x = CR \<and> take 1 r = [LF]
            then (takeWhile (\<lambda>c. \<not> is_linebreak c) cs) # splitlines (drop 1 r)
            else (takeWhile (\<lambda>c. \<not> is_linebreak c) cs) # splitlines r)"
  proof -
    from Cons have "cs \<noteq> []" by simp
    then show ?thesis
      by (subst splitlines.simps) (simp add: Let_def del: One_nat_def)
  qed
  ultimately show ?thesis
    by (cases "dropWhile (\<lambda>c. \<not> is_linebreak c) cs") (auto simp del: One_nat_def)
qed

lemma splitlines_cases:
  obtains (nil) "s = []"
  | (lf) cs where "s = LF # cs" "splitlines s = [] # splitlines cs"
  | (crlf) cs where "s = CR # LF # cs" "splitlines s = [] # splitlines cs"
  | (cr) cs where "s = CR # cs" "take 1 cs \<noteq> [LF]" "splitlines s = [] # splitlines cs"
  | (plain) c cs where "s = c # cs" "\<not> is_linebreak c"
      "splitlines s = (case splitlines cs of [] \<Rightarrow> [[c]] | l # ls \<Rightarrow> (c # l) # ls)"
proof (cases s)
  case Nil
  then show ?thesis using nil by simp
next
  case (Cons c cs)
  show ?thesis
  proof (cases "is_linebreak c")
    case False
    then show ?thesis using plain Cons splitlines_plain by blast
  next
    case True
    then consider "c = LF" | "c = CR" by (auto simp: is_linebreak_def)
    then show ?thesis
    proof cases
      case 1
      then show ?thesis using lf Cons by simp
    next
      case 2
      show ?thesis
      proof (cases "take 1 cs = [LF]")
        case True
        then obtain ds where "cs = LF # ds" by (cases cs) auto
        then show ?thesis using crlf Cons 2 by simp
      next
        case False
        then show ?thesis using cr Cons 2 splitlines_CR by blast
      qed
    qed
  qed
qed

lemma splitlines_nonempty: "s \<noteq> [] \<Longrightarrow> splitlines s \<noteq> []"
  by (cases s rule: splitlines_cases) (auto split: list.splits)

lemma count_LF_le_lines: "count_bytes s LF \<le> length (splitlines s)"
proof (induction s rule: length_induct)
  case (1 s)
  show ?case
  proof (cases s rule: splitlines_cases)
    case nil
    then show ?thesis by (simp add: count_bytes_def)
  next
    case (lf cs)
    with 1 have "count_bytes cs LF \<le> length (splitlines cs)" by simp
    with lf show ?thesis by (simp add: count_bytes_def)
  next
    case (crlf cs)
    with 1 have "count_bytes cs LF \<le> length (splitlines cs)" by simp
    with crlf show ?thesis by (simp add: count_bytes_def CR_def LF_def)
  next
    case (cr cs)
    with 1 have "count_bytes cs LF \<le> length (splitlines cs)" by simp
    with cr show ?thesis by (simp add: count_bytes_def CR_def LF_def)
  next
    case (plain c cs)
    with 1 have "count_bytes cs LF \<le> length (splitlines cs)" by simp
    with plain show ?thesis
      by (auto simp: count_bytes_def is_linebreak_def split: list.splits)
  qed
qed

lemma splitlines_no_break:
  "l \<in> set (splitlines s) \<Longrightarrow> c \<in> set l \<Longrightarrow> \<not> is_linebreak c"
proof (induction s arbitrary: l rule: length_induct)
  case (1 s)
  have IH: "\<not> is_linebreak c" if "length ys < length s" "l' \<in> set (splitlines ys)" "c \<in> set l'"
    for ys l'
    using 1(1) that by blast
  show ?case
  proof (cases s rule: splitlines_cases)
    case nil
    with 1 show ?thesis by simp
  next
    case (lf cs)
    with 1(2,3) have "l \<in> set (splitlines cs)" by auto
    with lf IH [of cs l] 1(3) show ?thesis by simp
  next
    case (crlf cs)
    with 1(2,3) have "l \<in> set (splitlines cs)" by auto
    with crlf IH [of cs l] 1(3) show ?thesis by simp
  next
    case (cr cs)
    with 1(2,3) have "l \<in> set (splitlines cs)" by auto
    with cr IH [of cs l] 1(3) show ?thesis by simp
  next
    case (plain d ds)
    show ?thesis
    proof (cases "splitlines ds")
      case Nil
      with plain 1(2,3) show ?thesis by auto
    next
      case (Cons l0 ls)
      with plain have sp: "splitlines s = (d # l0) # ls" by simp
      from 1(2) sp consider "l = d # l0" | "l \<in> set ls" by auto
      then show ?thesis
      proof cases
        case 1
        with \<open>c \<in> set l\<close> consider "c = d" | "c \<in> set l0" by auto
        then show ?thesis
        proof cases
          case 1
          with plain show ?thesis by simp
        next
          case 2
          with IH [of ds l0] plain Cons show ?thesis by simp
        qed
      next
        case 2
        with IH [of ds l] plain Cons \<open>c \<in> set l\<close> show ?thesis by simp
      qed
    qed
  qed
qed

lemma splitlines_suffix:
  "b \<noteq> [] \<Longrightarrow> \<exists>X. X \<noteq> [] \<and> splitlines (a @ b) = X @ tl (splitlines b)"
proof (induction a rule: length_induct)
  case (1 a)
  have IH: "\<exists>X. X \<noteq> [] \<and> splitlines (ys @ b) = X @ tl (splitlines b)"
    if "length ys < length a" for ys
    using 1 that by blast
  show ?case
  proof (cases a rule: splitlines_cases)
    case nil
    from 1(2) have "splitlines b \<noteq> []" by (rule splitlines_nonempty)
    then have "splitlines b = [hd (splitlines b)] @ tl (splitlines b)" by simp
    with nil show ?thesis by (metis append_Nil not_Cons_self2)
  next
    case (lf cs)
    then have "length cs < length a" by simp
    from IH [OF this] obtain X where "X \<noteq> []" "splitlines (cs @ b) = X @ tl (splitlines b)"
      by blast
    with lf have "splitlines (a @ b) = ([] # X) @ tl (splitlines b)" by simp
    then show ?thesis by blast
  next
    case (crlf cs)
    then have "length cs < length a" by simp
    from IH [OF this] obtain X where "X \<noteq> []" "splitlines (cs @ b) = X @ tl (splitlines b)"
      by blast
    with crlf have "splitlines (a @ b) = ([] # X) @ tl (splitlines b)" by simp
    then show ?thesis by blast
  next
    case (cr cs)
    show ?thesis
    proof (cases "cs = [] \<and> take 1 b = [LF]")
      case True
      then obtain b' where b: "b = LF # b'" by (cases b) auto
      with True cr have "splitlines (a @ b) = [[]] @ tl (splitlines b)" by simp
      then show ?thesis by blast
    next
      case False
      with cr 1(2) have "take 1 (cs @ b) \<noteq> [LF]" by (cases cs) auto
      then have "splitlines (CR # cs @ b) = [] # splitlines (cs @ b)" by (rule splitlines_CR)
      moreover from cr have "length cs < length a" by simp
      from IH [OF this] obtain X where "X \<noteq> []" "splitlines (cs @ b) = X @ tl (splitlines b)"
        by blast
      ultimately have "splitlines (a @ b) = ([] # X) @ tl (splitlines b)" using cr by simp
      then show ?thesis by blast
    qed
  next
    case (plain c cs)
    then have "length cs < length a" by simp
    from IH [OF this] obtain X where X: "X \<noteq> []" "splitlines (cs @ b) = X @ tl (splitlines b)"
      by blast
    then obtain x xs where "X = x # xs" by (cases X) auto
    with X plain have "splitlines (a @ b) = ((c # x) # xs) @ tl (splitlines b)"
      by (simp add: splitlines_plain)
    then show ?thesis by blast
  qed
qed

subsection \<open>What the decoder returns\<close>

lemma step_drop: "decoded_step c s (utf8_ignore (drop k s))"
  unfolding decoded_step_def by blast

lemma step_same: "decoded_step c s (utf8_ignore s)"
  using step_drop [of c s 0] by simp

lemma step_tl: "decoded_step c (c2 # s2) (utf8_ignore s2)"
  using step_drop [of c "c2 # s2" 1] by simp

lemma step_tl2: "decoded_step c (c2 # c3 # s3) (utf8_ignore s3)"
  using step_drop [of c "c2 # c3 # s3" 2] by simp

lemma step_nil: "decoded_step c s []"
  unfolding decoded_step_def by blast

lemma step_val: "0x80 \<le> v \<Longrightarrow> decoded_step c s (v # utf8_ignore (drop k s))"
  unfolding decoded_step_def by blast

lemma step_val1: "0x80 \<le> v \<Longrightarrow> decoded_step c (c2 # s2) (v # utf8_ignore s2)"
  using step_val [of v c "c2 # s2" 1] by simp

lemma step_val2: "0x80 \<le> v \<Longrightarrow> decoded_step c (c2 # c3 # s3) (v # utf8_ignore s3)"
  using step_val [of v c "c2 # c3 # s3" 2] by simp

lemma step_val3: "0x80 \<le> v \<Longrightarrow> decoded_step c (c2 # c3 # c4 # s4) (v # utf8_ignore s4)"
  using step_val [of v c "c2 # c3 # c4 # s4" 3] by simp

lemma step_ascii: "c < 0x80 \<Longrightarrow> decoded_step c s (c # utf8_ignore s)"
  unfolding decoded_step_def by (metis drop0)

lemma utf8_two:
  assumes "\<not> c < 0x80" "\<not> c < 0xC2" "c < 0xE0"
  shows "decoded_step c s (utf8_ignore (c # s))"
proof (cases s)
  case Nil
  with assms have "utf8_ignore (c # s) = []"
    by (subst utf8_ignore.simps) (simp del: utf8_ignore.simps)
  then show ?thesis by (simp add: step_nil)
next
  case (Cons c2 s2)
  show ?thesis
  proof (cases "is_continuation c2")
    case False
    with assms Cons have "utf8_ignore (c # s) = utf8_ignore s" by (subst utf8_ignore.simps) (simp del: utf8_ignore.simps)
    then show ?thesis by (simp add: step_same)
  next
    case True
    with assms Cons have "utf8_ignore (c # s) = ((c - 0xC0) * 0x40 + (c2 - 0x80)) # utf8_ignore s2"
      by (subst utf8_ignore.simps) (simp del: utf8_ignore.simps)
    moreover from assms have "0x80 \<le> (c - 0xC0) * 0x40 + (c2 - 0x80)" by simp
    ultimately show ?thesis using Cons step_val1 by simp
  qed
qed

lemma utf8_three:
  assumes "\<not> c < 0xE0" "c < 0xF0"
  shows "decoded_step c s (utf8_ignore (c # s))"
proof (cases s)
  case Nil
  with assms have "utf8_ignore (c # s) = []"
    by (subst utf8_ignore.simps) (simp del: utf8_ignore.simps)
  then show ?thesis by (simp add: step_nil)
next
  case s: (Cons c2 s2)
  show ?thesis
  proof (cases "\<not> is_continuation c2 \<or> (if c2 < 0xA0 then c = 0xE0 else c = 0xED)")
    case True
    with assms s have "utf8_ignore (c # s) = utf8_ignore s"
      by (subst utf8_ignore.simps) (auto simp del: utf8_ignore.simps)
    then show ?thesis by (simp add: step_same)
  next
    case ok2: False
    show ?thesis
    proof (cases s2)
      case Nil
      with assms s ok2 have "utf8_ignore (c # s) = []" by (subst utf8_ignore.simps) (simp del: utf8_ignore.simps)
      then show ?thesis by (simp add: step_nil)
    next
      case s2: (Cons c3 s3)
      show ?thesis
      proof (cases "is_continuation c3")
        case False
        with assms s s2 ok2 have "utf8_ignore (c # s) = utf8_ignore s2" by (subst utf8_ignore.simps) (simp del: utf8_ignore.simps)
        then show ?thesis using s step_tl by simp
      next
        case True
        let ?v = "(c - 0xE0) * 0x1000 + (c2 - 0x80) * 0x40 + (c3 - 0x80)"
        from assms s s2 ok2 True have "utf8_ignore (c # s) = ?v # utf8_ignore s3" by (subst utf8_ignore.simps) (simp del: utf8_ignore.simps)
        moreover from assms ok2 have "0x80 \<le> ?v"
          by (cases "c = 0xE0") (auto simp: is_continuation_def split: if_splits)
        ultimately show ?thesis using s s2 step_val2 by simp
      qed
    qed
  qed
qed

lemma utf8_four:
  assumes "\<not> c < 0xF0" "c < 0xF5"
  shows "decoded_step c s (utf8_ignore (c # s))"
proof (cases s)
  case Nil
  with assms have "utf8_ignore (c # s) = []"
    by (subst utf8_ignore.simps) (simp del: utf8_ignore.simps)
  then show ?thesis by (simp add: step_nil)
next
  case s: (Cons c2 s2)
  show ?thesis
  proof (cases "\<not> is_continuation c2 \<or> (if c2 < 0x90 then c = 0xF0 else c = 0xF4)")
    case True
    with assms s have "utf8_ignore (c # s) = utf8_ignore s"
      by (subst utf8_ignore.simps) (auto simp del: utf8_ignore.simps)
    then show ?thesis by (simp add: step_same)
  next
    case ok2: False
    show ?thesis
    proof (cases s2)
      case Nil
      with assms s ok2 have "utf8_ignore (c # s) = []" by (subst utf8_ignore.simps) (simp del: utf8_ignore.simps)
      then show ?thesis by (simp add: step_nil)
    next
      case s2: (Cons c3 s3)
      show ?thesis
      proof (cases "is_continuation c3")
        case False
        with assms s s2 ok2 have "utf8_ignore (c # s) = utf8_ignore s2" by (subst utf8_ignore.simps) (simp del: utf8_ignore.simps)
        then show ?thesis using s step_tl by simp
      next
        case ok3: True
        show ?thesis
        proof (cases s3)
          case Nil
          with assms s s2 ok2 ok3 have "utf8_ignore (c # s) = []" by (subst utf8_ignore.simps) (simp del: utf8_ignore.simps)
          then show ?thesis by (simp add: step_nil)
        next
          case s3: (Cons c4 s4)
          show ?thesis
          proof (cases "is_continuation c4")
            case False
            with assms s s2 s3 ok2 ok3 have "utf8_ignore (c # s) = utf8_ignore s3" by (subst utf8_ignore.simps) (simp del: utf8_ignore.simps)
            then show ?thesis using s s2 step_tl2 by simp
          next
            case True
            let ?v = "(c - 0xF0) * 0x40000 + (c2 - 0x80) * 0x1000 + (c3 - 0x80) * 0x40 + (c4 - 0x80)"
            from assms s s2 s3 ok2 ok3 True have "utf8_ignore (c # s) = ?v # utf8_ignore s4"
              by (subst utf8_ignore.simps) (simp del: utf8_ignore.simps)
            moreover from assms ok2 have "0x80 \<le> ?v"
              by (cases "c = 0xF0") (auto simp: is_continuation_def split: if_splits)
            ultimately show ?thesis using s s2 s3 step_val3 by simp
          qed
        qed
      qed
    qed
  qed
qed

lemma utf8_step: "decoded_step c s (utf8_ignore (c # s))"
proof -
  consider "c < 0x80" | "\<not> c < 0x80" "c < 0xC2" | "\<not> c < 0x80" "\<not> c < 0xC2" "c < 0xE0"
    | "\<not> c < 0xE0" "c < 0xF0" | "\<not> c < 0xF0" "c < 0xF5" | "\<not> c < 0xF5"
    by linarith
  then show ?thesis
  proof cases
    case 1
    then show ?thesis by (simp add: step_ascii)
  next
    case 2
    then have "utf8_ignore (c # s) = utf8_ignore s" by (subst utf8_ignore.simps) (simp del: utf8_ignore.simps)
    then show ?thesis by (simp add: step_same)
  next
    case 3
    then show ?thesis by (rule utf8_two)
  next
    case 4
    then show ?thesis by (rule utf8_three)
  next
    case 5
    then show ?thesis by (rule utf8_four)
  next
    case 6
    then have "utf8_ignore (c # s) = utf8_ignore s" by (subst utf8_ignore.simps) (simp del: utf8_ignore.simps)
    then show ?thesis by (simp add: step_same)
  qed
qed

lemma utf8_ignore_ascii:
  "x \<in> set (utf8_ignore bs) \<Longrightarrow> x < 0x80 \<Longrightarrow> x \<in> set bs"
proof (induction bs rule: length_induct)
  case (1 bs)
  show ?case
  proof (cases bs)
    case Nil
    with 1 show ?thesis by simp
  next
    case (Cons c s)
    have IH: "x \<in> set (drop k s)" if "x \<in> set (utf8_ignore (drop k s))" for k
    proof -
      have "length (drop k s) < length bs" using Cons by simp
      with 1(1) that 1(3) show ?thesis by blast
    qed
    from utf8_step [of c s] consider "utf8_ignore bs = []"
      | k where "utf8_ignore bs = utf8_ignore (drop k s)"
      | v k where "utf8_ignore bs = v # utf8_ignore (drop k s)" "v = c \<and> c < 0x80 \<or> 0x80 \<le> v"
      unfolding decoded_step_def Cons by blast
    then show ?thesis
    proof cases
      case 1
      with \<open>x \<in> set (utf8_ignore bs)\<close> show ?thesis by simp
    next
      case 2
      with \<open>x \<in> set (utf8_ignore bs)\<close> IH [of k] have "x \<in> set (drop k s)" by simp
      then have "x \<in> set s" by (rule in_set_dropD)
      with Cons show ?thesis by simp
    next
      case 3
      from 3(1) \<open>x \<in> set (utf8_ignore bs)\<close> consider "x = v" | "x \<in> set (utf8_ignore (drop k s))"
        by auto
      then show ?thesis
      proof cases
        case 1
        with 3(2) \<open>x < 0x80\<close> Cons show ?thesis by auto
      next
        case 2
        with IH [of k] have "x \<in> set (drop k s)" by simp
        then have "x \<in> set s" by (rule in_set_dropD)
        with Cons show ?thesis by simp
      qed
    qed
  qed
qed

lemma utf8_ascii: "c < 0x80 \<Longrightarrow> utf8_ignore (c # s) = c # utf8_ignore s"
  by simp

lemma utf8_invalid:
  assumes "0x80 \<le> c \<and> c < 0xC2 \<or> 0xF5 \<le> c"
  shows "utf8_ignore (c # s) = utf8_ignore s"
proof -
  from assms consider "\<not> c < 0x80" "c < 0xC2" | "\<not> c < 0xF5" by linarith
  then show ?thesis
  proof cases
    case 1
    then show ?thesis by simp
  next
    case 2
    then show ?thesis by simp
  qed
qed

lemma decode_Cons_ascii: "of_char x < (0x80::nat) \<Longrightarrow> decode (x # xs) = of_char x # decode xs"
  by (simp only: decode_def list.map utf8_ascii)

lemma decode_Cons_invalid:
  "(0x80::nat) \<le> of_char b \<and> of_char b < (0xC2::nat) \<or> (0xF5::nat) \<le> of_char b \<Longrightarrow>
   decode (b # ys) = decode ys"
  by (simp only: decode_def list.map utf8_invalid)

lemma decode_skips:
  assumes "\<forall>x \<in> set xs. of_char x < (0x80::nat)"
    and "(0x80::nat) \<le> of_char b \<and> of_char b < (0xC2::nat) \<or> (0xF5::nat) \<le> of_char b"
  shows "decode (xs @ b # ys) = map of_char xs @ decode ys"
  using assms(1)
proof (induction xs)
  case Nil
  show ?case by (simp only: append_Nil list.map decode_Cons_invalid [OF assms(2)])
next
  case (Cons x xs)
  then have "of_char x < (0x80::nat)" "decode (xs @ b # ys) = map of_char xs @ decode ys"
    by simp_all
  then show ?case by (simp only: append_Cons list.map decode_Cons_ascii)
qed

lemma of_char_LF: "of_char ch = (0x0A::nat) \<longleftrightarrow> ch = LF"
proof -
  have "of_char LF = (0x0A::nat)" by (simp add: LF_def)
  then have "of_char ch = (0x0A::nat) \<longleftrightarrow> (of_char ch :: nat) = of_char LF" by simp
  then show ?thesis by (simp only: of_char_eq_iff)
qed

lemma of_char_CR: "of_char ch = (0x0D::nat) \<longleftrightarrow> ch = CR"
proof -
  have "of_char CR = (0x0D::nat)" by (simp add: CR_def)
  then have "of_char ch = (0x0D::nat) \<longleftrightarrow> (of_char ch :: nat) = of_char CR" by simp
  then show ?thesis by (simp only: of_char_eq_iff)
qed

lemma decode_no_break:
  assumes "\<forall>ch \<in> set raw. \<not> is_linebreak ch"
  shows "0x0A \<notin> set (decode raw) \<and> 0x0D \<notin> set (decode raw)"
proof -
  have "x \<notin> set (decode raw)" if "x = 0x0A \<or> x = 0x0D" for x
  proof
    assume "x \<in> set (decode raw)"
    moreover from that have "x < 0x80" by auto
    ultimately have "x \<in> set (map of_char raw)"
      unfolding decode_def by (rule utf8_ignore_ascii)
    then obtain ch where "ch \<in> set raw" "of_char ch = x" by auto
    with that have "is_linebreak ch"
      by (auto simp: is_linebreak_def of_char_LF of_char_CR)
    with assms \<open>ch \<in> set raw\<close> show False by blast
  qed
  then show ?thesis by blast
qed

lemma set_slice_from: "set (slice_from k xs) \<subseteq> set xs"
  unfolding slice_from_def Let_def by (rule set_drop_subset)

subsection \<open>The loop\<close>

lemma chunk_prepend:
  assumes "j \<le> p" "p \<le> length c"
  shows "take j (drop (p - j) c) @ drop p c = drop (p - j) c"
proof -
  have "drop j (drop (p - j) c) = drop (j + (p - j)) c"
    by (rule drop_drop)
  also have "j + (p - j) = p"
    using assms by simp
  finally have "drop j (drop (p - j) c) = drop p c" .
  then have "take j (drop (p - j) c) @ drop p c =
      take j (drop (p - j) c) @ drop j (drop (p - j) c)"
    by simp
  also have "\<dots> = drop (p - j) c"
    by (rule append_take_drop_id)
  finally show ?thesis .
qed

lemma seek_back:
  assumes "j \<le> p"
  shows "seek (- int j) SEEK_CUR \<lparr>h_content = c, h_pos = p, h_reads = r, h_seeks = k, h_seek_end = e\<rparr> =
    Inr \<lparr>h_content = c, h_pos = p - j, h_reads = r, h_seeks = Suc k, h_seek_end = e\<rparr>"
  using assms by (simp add: seek_def tell_def nat_diff_distrib')

lemma read_chunk:
  assumes "q + j \<le> length c"
  shows "read (int j) \<lparr>h_content = c, h_pos = q, h_reads = r, h_seeks = k, h_seek_end = e\<rparr> =
    (take j (drop q c), \<lparr>h_content = c, h_pos = q + j, h_reads = Suc r, h_seeks = k, h_seek_end = e\<rparr>)"
  using assms by (auto simp: read_def Let_def min_def)

lemma loop_body_at:
  assumes "0 < p" "p \<le> length c"
  shows "loop_body \<lparr>h_content = c, h_pos = p, h_reads = r, h_seeks = k, h_seek_end = e\<rparr> (drop p c) =
    Inr (\<lparr>h_content = c, h_pos = p - min p 8192, h_reads = Suc r, h_seeks = Suc (Suc k), h_seek_end = e\<rparr>,
         drop (p - min p 8192) c)"
proof -
  let ?j = "min p 8192"
  have j: "?j \<le> p" by simp
  have jump: "min (tell \<lparr>h_content = c, h_pos = p, h_reads = r, h_seeks = k, h_seek_end = e\<rparr>) block = int ?j"
    by (simp add: block_def tell_def min_def)
  have same: "p - ?j + ?j = p" by simp
  have fits: "p - ?j + ?j \<le> length c" using assms(2) by simp
  show ?thesis
    unfolding loop_body_def jump Let_def
    by (simp only: seek_back [OF j] read_chunk [OF fits] same sum.case prod.case
        diff_add_inverse2 chunk_prepend [OF j assms(2)])
qed

lemma tail_loop_eq:
  "p \<le> length c \<Longrightarrow>
   tail_loop n \<lparr>h_content = c, h_pos = p, h_reads = r, h_seeks = k, h_seek_end = e\<rparr> (drop p c) =
   Some (Inr (\<lparr>h_content = c, h_pos = stop_pos n c p, h_reads = r + rounds n c p,
                h_seeks = k + 2 * rounds n c p, h_seek_end = e\<rparr>,
              drop (stop_pos n c p) c))"
proof (induction n c p arbitrary: r k rule: stop_pos.induct)
  case (1 n c p)
  show ?case
  proof (cases "0 < p \<and> int (count_bytes (drop p c) LF) \<le> n")
    case True
    then have "0 < p" by simp
    note body = loop_body_at [OF this "1.prems", of r k e]
    have le: "p - min p 8192 \<le> length c" using "1.prems" by simp
    have sp: "stop_pos n c p = stop_pos n c (p - min p 8192)"
      using True by (subst stop_pos.simps) simp
    have rd: "rounds n c p = Suc (rounds n c (p - min p 8192))"
      using True by (subst rounds.simps) simp
    have "tail_loop n \<lparr>h_content = c, h_pos = p, h_reads = r, h_seeks = k, h_seek_end = e\<rparr> (drop p c) =
        tail_loop n \<lparr>h_content = c, h_pos = p - min p 8192, h_reads = Suc r,
                      h_seeks = Suc (Suc k), h_seek_end = e\<rparr> (drop (p - min p 8192) c)"
      using True by (subst tail_loop.simps) (simp add: body tell_def)
    also note "1.IH" [OF True le, of "Suc r" "Suc (Suc k)"]
    finally show ?thesis by (simp add: sp rd)
  next
    case False
    then have sp: "stop_pos n c p = p" by (subst stop_pos.simps) auto
    from False have rd: "rounds n c p = 0" by (subst rounds.simps) auto
    from False show ?thesis
      by (subst tail_loop.simps) (auto simp: tell_def sp rd)
  qed
qed

lemma stop_pos_le: "stop_pos n c p \<le> p"
proof (induction n c p rule: stop_pos.induct)
  case (1 n c p)
  show ?case
  proof (cases "0 < p \<and> int (count_bytes (drop p c) LF) \<le> n")
    case True
    then have "stop_pos n c p = stop_pos n c (p - min p 8192)"
      by (subst stop_pos.simps) simp
    with "1.IH" [OF True] show ?thesis by simp
  next
    case False
    then show ?thesis by (subst stop_pos.simps) auto
  qed
qed

lemma stop_pos_exit:
  "stop_pos n c p = 0 \<or> n < int (count_bytes (drop (stop_pos n c p) c) LF)"
proof (induction n c p rule: stop_pos.induct)
  case (1 n c p)
  show ?case
  proof (cases "0 < p \<and> int (count_bytes (drop p c) LF) \<le> n")
    case True
    then have "stop_pos n c p = stop_pos n c (p - min p 8192)"
      by (subst stop_pos.simps) simp
    with "1.IH" [OF True] show ?thesis by simp
  next
    case False
    then have "stop_pos n c p = p" by (subst stop_pos.simps) auto
    with False show ?thesis by auto
  qed
qed

lemma count_bytes_drop_le: "count_bytes (drop k xs) LF \<le> count_bytes xs LF"
proof -
  have "count_bytes (take k xs @ drop k xs) LF =
      count_bytes (take k xs) LF + count_bytes (drop k xs) LF"
    unfolding count_bytes_def by (simp only: filter_append length_append)
  then have "count_bytes xs LF = count_bytes (take k xs) LF + count_bytes (drop k xs) LF"
    by (simp only: append_take_drop_id)
  then show ?thesis by simp
qed

lemma count_bytes_drop_mono:
  assumes "i \<le> j"
  shows "count_bytes (drop j c) LF \<le> count_bytes (drop i c) LF"
proof -
  have "drop (j - i) (drop i c) = drop (j - i + i) c" by (rule drop_drop)
  with assms have "drop j c = drop (j - i) (drop i c)" by simp
  then show ?thesis by (simp only: count_bytes_drop_le)
qed

lemma slice_from_last:
  "1 \<le> n \<Longrightarrow> slice_from (- n) xs = drop (length xs - nat n) xs"
  by (auto simp: slice_from_def Let_def max_def nat_diff_distrib' intro: arg_cong [where f = "\<lambda>k. drop k xs"])

lemma drop_append_last:
  "k \<le> length ys \<Longrightarrow> drop (length (xs @ ys) - k) (xs @ ys) = drop (length ys - k) ys"
  by simp

lemma tail_of_suffix:
  assumes "1 \<le> n" "s = 0 \<or> n < int (count_bytes (drop s c) LF)"
  shows "slice_from (- n) (splitlines (drop s c)) = slice_from (- n) (splitlines c)"
proof (cases "s = 0")
  case True
  then show ?thesis by simp
next
  case False
  let ?b = "drop s c"
  let ?L = "splitlines ?b"
  from False assms have cnt: "n < int (count_bytes ?b LF)" by simp
  with assms(1) have "?b \<noteq> []" by (auto simp: count_bytes_def)
  from splitlines_suffix [OF this, of "take s c"]
  obtain X where X: "X \<noteq> []" "splitlines c = X @ tl ?L" by auto
  from cnt count_LF_le_lines [of ?b] assms(1) have len: "nat n < length ?L" by arith
  then have L: "?L = hd ?L # tl ?L" by (cases ?L) auto
  from len have tl_len: "nat n \<le> length (tl ?L)" by simp
  have "drop (length ?L - nat n) ?L = drop (length (tl ?L) - nat n) (tl ?L)"
  proof -
    have "length ?L - nat n = Suc (length (tl ?L) - nat n)"
      using len by simp
    then have "drop (length ?L - nat n) ?L = drop (Suc (length (tl ?L) - nat n)) (hd ?L # tl ?L)"
      using L by simp
    then show ?thesis by simp
  qed
  also have "\<dots> = drop (length (X @ tl ?L) - nat n) (X @ tl ?L)"
    using drop_append_last [OF tl_len, of X] by simp
  finally show ?thesis
    using assms(1) X(2) by (simp add: slice_from_last)
qed

subsection \<open>Where the scan stops and what it costs\<close>

lemma stop_pos_0: "stop_pos n c 0 = 0"
  by (subst stop_pos.simps) simp

lemma rounds_0: "rounds n c 0 = 0"
  by (subst rounds.simps) simp

lemma rounds_bytes:
  "p - stop_pos n c p \<le> 8192 * rounds n c p
   \<and> 8192 * rounds n c p < (p - stop_pos n c p) + 8192"
proof (induction n c p rule: stop_pos.induct)
  case (1 n c p)
  show ?case
  proof (cases "0 < p \<and> int (count_bytes (drop p c) LF) \<le> n")
    case False
    then have "stop_pos n c p = p" "rounds n c p = 0"
      by (subst stop_pos.simps, auto)[1] (subst rounds.simps, use False in auto)
    then show ?thesis by simp
  next
    case True
    let ?q = "p - min p 8192"
    have sp: "stop_pos n c p = stop_pos n c ?q"
      using True by (subst stop_pos.simps) simp
    have rd: "rounds n c p = Suc (rounds n c ?q)"
      using True by (subst rounds.simps) simp
    note IH = "1.IH" [OF True]
    have le: "stop_pos n c ?q \<le> ?q" by (rule stop_pos_le)
    show ?thesis
    proof (cases "8192 \<le> p")
      case True
      then have q: "?q = p - 8192" by simp
      define s where "s = stop_pos n c (p - 8192)"
      define t where "t = rounds n c (p - 8192)"
      from IH le have "p - 8192 - s \<le> 8192 * t" "8192 * t < p - 8192 - s + 8192" "s \<le> p - 8192"
        unfolding q s_def t_def by simp_all
      with True have "p - s \<le> 8192 * Suc t \<and> 8192 * Suc t < p - s + 8192"
        by (simp only: mult_Suc_right) arith
      then show ?thesis unfolding sp rd q s_def t_def .
    next
      case False
      then have q: "?q = 0" by simp
      from False True show ?thesis unfolding sp rd q by (simp add: stop_pos_0 rounds_0)
    qed
  qed
qed

lemma stop_pos_overshoot:
  "stop_pos n c p = p \<or> int (count_bytes (drop (stop_pos n c p + 8192) c) LF) \<le> n"
proof (induction n c p rule: stop_pos.induct)
  case (1 n c p)
  show ?case
  proof (cases "0 < p \<and> int (count_bytes (drop p c) LF) \<le> n")
    case False
    then have "stop_pos n c p = p" by (subst stop_pos.simps) auto
    then show ?thesis by simp
  next
    case True
    let ?q = "p - min p 8192"
    have sp: "stop_pos n c p = stop_pos n c ?q"
      using True by (subst stop_pos.simps) simp
    from "1.IH" [OF True] show ?thesis
    proof
      assume "stop_pos n c ?q = ?q"
      then have "p \<le> stop_pos n c p + 8192" unfolding sp by simp
      from count_bytes_drop_mono [OF this, of c] True show ?thesis by simp
    next
      assume "int (count_bytes (drop (stop_pos n c ?q + 8192) c) LF) \<le> n"
      then show ?thesis unfolding sp by simp
    qed
  qed
qed

lemma few_newlines:
  assumes "int (count_bytes c LF) \<le> n"
  shows "stop_pos n c p = 0 \<and> rounds n c p = (p + 8191) div 8192"
proof (induction p rule: less_induct)
  case (less p)
  show ?case
  proof (cases "0 < p")
    case False
    then show ?thesis by (simp add: stop_pos_0 rounds_0)
  next
    case True
    from count_bytes_drop_le [of p c] assms have "int (count_bytes (drop p c) LF) \<le> n" by simp
    with True have c: "0 < p \<and> int (count_bytes (drop p c) LF) \<le> n" by simp
    let ?q = "p - min p 8192"
    have sp: "stop_pos n c p = stop_pos n c ?q"
      using c by (subst stop_pos.simps) simp
    have rd: "rounds n c p = Suc (rounds n c ?q)"
      using c by (subst rounds.simps) simp
    from True have "?q < p" by simp
    note IH = less [OF this]
    have "Suc ((?q + 8191) div 8192) = (p + 8191) div 8192"
    proof (cases "8192 \<le> p")
      case True
      then have "p + 8191 = (p - 8192 + 8191) + 1 * 8192" by simp
      then have "(p + 8191) div 8192 = (p - 8192 + 8191) div 8192 + 1"
        by (metis div_mult_self1 add.commute zero_neq_numeral)
      with True show ?thesis by simp
    next
      case False
      with \<open>0 < p\<close> show ?thesis by simp
    qed
    with IH show ?thesis unfolding sp rd by simp
  qed
qed

subsection \<open>The loop on any handle\<close>

lemma loop_body_moves:
  assumes "0 < tell f" "loop_body f data = Inr (f', data')"
  shows "tell f' \<le> tell f - min (tell f) block \<and> tell f' < tell f"
proof -
  let ?j = "min (tell f) block"
  have j: "0 < ?j" "?j \<le> tell f" using assms(1) by (simp_all add: block_def)
  from assms(2) obtain f1 where f1: "seek (- ?j) SEEK_CUR f = Inr f1"
    by (auto simp: loop_body_def Let_def split: sum.splits)
  then have p1: "tell f1 = tell f - ?j"
    using j by (auto simp: seek_def tell_def Let_def split: if_splits)
  obtain chunk f2 where rd: "read ?j f1 = (chunk, f2)" by (cases "read ?j f1")
  then have p2: "tell f2 \<le> tell f1 + ?j"
    using j by (auto simp: read_def tell_def Let_def)
  from assms(2) f1 rd obtain f3 where f3: "seek (- ?j) SEEK_CUR f2 = Inr f3" "f' = f3"
    by (auto simp: loop_body_def Let_def split: sum.splits)
  then have p3: "tell f' = tell f2 - ?j"
    by (auto simp: seek_def tell_def Let_def split: if_splits)
  have "tell f' \<le> tell f - ?j" using p1 p2 p3 by simp
  moreover from this j(1) have "tell f' < tell f" by (auto simp: min_def split: if_splits)
  ultimately show ?thesis by simp
qed

lemma tail_loop_returns: "\<exists>r. tail_loop n f data = Some r"
proof (induction "h_pos f" arbitrary: f data rule: less_induct)
  case less
  show ?case
  proof (cases "tell f > 0 \<and> int (count_bytes data LF) \<le> n")
    case False
    then show ?thesis by (subst tail_loop.simps) auto
  next
    case True
    show ?thesis
    proof (cases "loop_body f data")
      case (Inl e)
      with True show ?thesis by (subst tail_loop.simps) simp
    next
      case (Inr fd)
      obtain f' data' where fd: "fd = (f', data')" by (cases fd)
      with Inr True loop_body_moves [of f data f' data'] have "h_pos f' < h_pos f"
        by (simp add: tell_def)
      from less [OF this, of data'] obtain r where "tail_loop n f' data' = Some r" by blast
      with True Inr fd show ?thesis by (subst tail_loop.simps) simp
    qed
  qed
qed

subsection \<open>The handler on a readable file\<close>

lemma read_tail_eq:
  "read_tail n \<lparr>h_content = c, h_pos = 0, h_reads = 0, h_seeks = 0, h_seek_end = True\<rparr> =
   Some (Inr (slice_from (- n) (splitlines (drop (stop_pos n c (length c)) c))))"
proof -
  have "seek 0 SEEK_END \<lparr>h_content = c, h_pos = 0, h_reads = 0, h_seeks = 0, h_seek_end = True\<rparr> =
      Inr \<lparr>h_content = c, h_pos = length c, h_reads = 0, h_seeks = Suc 0, h_seek_end = True\<rparr>"
    by (simp add: seek_def)
  moreover have "tail_loop n \<lparr>h_content = c, h_pos = length c, h_reads = 0, h_seeks = Suc 0, h_seek_end = True\<rparr> [] =
      Some (Inr (\<lparr>h_content = c, h_pos = stop_pos n c (length c),
                   h_reads = 0 + rounds n c (length c),
                   h_seeks = Suc 0 + 2 * rounds n c (length c), h_seek_end = True\<rparr>,
                 drop (stop_pos n c (length c)) c))"
    using tail_loop_eq [of "length c" c n 0 "Suc 0" True] by simp
  ultimately show ?thesis
    by (simp add: read_tail_def)
qed

lemma read_tail_pseudo:
  "read_tail n \<lparr>h_content = c, h_pos = 0, h_reads = 0, h_seeks = 0, h_seek_end = False\<rparr> =
   Some (Inl OSError)"
  by (simp add: read_tail_def seek_def)

lemma get_logs_by_node:
  "get_logs fs fname n =
     (case fs (str_of_path (Path fname)) of
        None \<Rightarrow> Some (Inl (HTTPException 404 ''Log file not found''))
      | Some Unreachable \<Rightarrow> Some (Inl PermissionError)
      | Some Directory \<Rightarrow> Some (Inl (HTTPException 404 ''Log file not found''))
      | Some (RegularFile r c) \<Rightarrow>
          if r
          then Some (Inr \<lparr>logfile = str_of_path (Path fname),
                 lines = map decode
                   (slice_from (- n) (splitlines (drop (stop_pos n c (length c)) c)))\<rparr>)
          else Some (Inl (HTTPException 403 ''Permission denied''))
      | Some FailingFile \<Rightarrow> Some (Inl OSError)
      | Some (PseudoFile c) \<Rightarrow> Some (Inl OSError))"
proof (cases "fs (str_of_path (Path fname))")
  case None
  then show ?thesis
    by (simp add: get_logs_def Let_def path_exists_def is_file_def stat_def)
next
  case (Some nd)
  then show ?thesis
    by (cases nd)
      (simp_all add: get_logs_def Let_def path_exists_def is_file_def stat_def path_open_def
        read_tail_eq read_tail_pseudo)
qed

lemma get_logs_readable:
  assumes "fs (str_of_path (Path fname)) = Some (RegularFile True c)"
  shows "get_logs fs fname n =
    Some (Inr \<lparr>logfile = str_of_path (Path fname),
               lines = map decode (slice_from (- n) (splitlines (drop (stop_pos n c (length c)) c)))\<rparr>)"
  using assms by (simp add: get_logs_by_node)

lemma get_logs_tail:
  assumes "fs (str_of_path (Path fname)) = Some (RegularFile True c)" "1 \<le> n"
  shows "get_logs fs fname n =
    Some (Inr \<lparr>logfile = str_of_path (Path fname),
               lines = map decode (drop (length (splitlines c) - nat n) (splitlines c))\<rparr>)"
  using get_logs_readable [of fs fname c n, OF assms(1)] tail_of_suffix [OF assms(2) stop_pos_exit, of c "length c"]
  by (simp add: slice_from_last [OF assms(2)])

lemma get_logs_success:
  assumes "get_logs fs fname n = Some (Inr r)"
  shows "\<exists>c. fs (str_of_path (Path fname)) = Some (RegularFile True c)"
  using assms unfolding get_logs_by_node
  by (auto split: option.splits node.splits if_splits)

subsection \<open>Evaluation on the examples\<close>

lemmas splitlines_eval =
  splitlines_Nil splitlines_LF [unfolded LF_def] splitlines_CRLF [unfolded LF_def CR_def]
  splitlines_CR [unfolded LF_def CR_def] splitlines_plain [unfolded is_linebreak_def LF_def CR_def]

lemma example_path:
  "str_of_path (Path (py_str ''/var/log/app.log'')) = py_str ''/var/log/app.log''"
  by (simp add: str_of_path_def Path_def py_str_def splitroot_def SEP_def DOT_def)

lemma example_fs_app:
  "example_fs c (str_of_path (Path (py_str ''/var/log/app.log''))) = Some (RegularFile True c)"
  by (simp add: example_path example_fs_def)

lemma example_paths:
  "str_of_path (Path (py_str ''/var/log'')) = py_str ''/var/log''"
  "str_of_path (Path (py_str ''/etc/shadow'')) = py_str ''/etc/shadow''"
  "str_of_path (Path (py_str ''/var/log/none'')) = py_str ''/var/log/none''"
  by (simp_all add: str_of_path_def Path_def py_str_def splitroot_def SEP_def DOT_def)

lemma example_fs_nodes:
  "example_fs c (py_str ''/var/log/app.log'') = Some (RegularFile True c)"
  "example_fs c (py_str ''/var/log'') = Some Directory"
  "example_fs c (py_str ''/etc/shadow'') = Some (RegularFile False ''root'')"
  "example_fs c (py_str ''/var/log/none'') = None"
  by (simp_all add: example_fs_def py_str_def)

lemma special_paths:
  "str_of_path (Path (py_str ''/srv/private/app.log'')) = py_str ''/srv/private/app.log''"
  "str_of_path (Path (py_str ''/proc/cpuinfo'')) = py_str ''/proc/cpuinfo''"
  "str_of_path (Path (py_str ''/mnt/stale/app.log'')) = py_str ''/mnt/stale/app.log''"
  by (simp_all add: str_of_path_def Path_def py_str_def splitroot_def SEP_def DOT_def)

lemma special_fs_nodes:
  "special_fs (py_str ''/srv/private/app.log'') = Some Unreachable"
  "special_fs (py_str ''/proc/cpuinfo'') = Some (PseudoFile ''processor'')"
  "special_fs (py_str ''/mnt/stale/app.log'') = Some FailingFile"
  by (simp_all add: special_fs_def py_str_def)

lemma dotdot_path:
  "str_of_path (Path (py_str ''/var//log/../log/./app.log'')) = py_str ''/var/log/../log/app.log''"
  by (simp add: str_of_path_def Path_def py_str_def splitroot_def SEP_def DOT_def)

lemma decode_x: "decode ''x'' = py_str ''x''"
  by (simp add: decode_def py_str_def)

lemma dotdot_run:
  "get_logs dotdot_fs (py_str ''/var//log/../log/./app.log'') 1 =
     Some (Inr \<lparr>logfile = py_str ''/var/log/../log/app.log'', lines = [py_str ''x'']\<rparr>)"
proof -
  have "dotdot_fs (str_of_path (Path (py_str ''/var//log/../log/./app.log''))) =
      Some (RegularFile True ''x'')"
    by (simp add: dotdot_path dotdot_fs_def)
  from get_logs_tail [of dotdot_fs _ "''x''" 1, OF this] show ?thesis
    by (simp add: dotdot_path decode_x splitlines_eval)
qed

lemma splitlines_line:
  "\<forall>x \<in> set xs. \<not> is_linebreak x \<Longrightarrow> splitlines (xs @ LF # ys) = xs # splitlines ys"
  by (induction xs) (simp_all add: splitlines_plain)

lemma whole_file_read:
  assumes "int (count_bytes c LF) \<le> n"
  shows "tail_loop n \<lparr>h_content = c, h_pos = length c, h_reads = r, h_seeks = k, h_seek_end = e\<rparr> [] =
    Some (Inr (\<lparr>h_content = c, h_pos = 0, h_reads = r + (length c + 8191) div 8192,
                 h_seeks = k + 2 * ((length c + 8191) div 8192), h_seek_end = e\<rparr>, c))"
  using tail_loop_eq [of "length c" c n r k e] few_newlines [OF assms, of "length c"] by simp

lemma long_line_facts:
  "length long_line = 40960" "\<forall>x \<in> set long_line. \<not> is_linebreak x"
  "count_bytes long_line LF = 0"
  by (simp_all add: long_line_def is_linebreak_def LF_def CR_def count_bytes_def)

lemma long_log_facts:
  "length long_log = 40962" "count_bytes long_log LF = 1" "splitlines long_log = [long_line, ''a'']"
proof -
  show "length long_log = 40962" by (simp add: long_log_def long_line_facts)
  show "count_bytes long_log LF = 1"
    using long_line_facts(3) by (simp add: long_log_def count_bytes_def LF_def)
  have "splitlines (long_line @ LF # ''a'') = long_line # splitlines ''a''"
    using long_line_facts(2) by (rule splitlines_line)
  then show "splitlines long_log = [long_line, ''a'']"
    by (simp add: long_log_def splitlines_eval)
qed

lemma abc_log_facts:
  "length abc_log = 6" "splitlines abc_log = [''a'', ''b'', ''c'']"
  by (simp_all add: abc_log_def splitlines_eval LF_def)

lemma decode_a: "decode ''a'' = py_str ''a''"
  by (simp add: decode_def py_str_def)

lemma abc_lines:
  "map decode (drop (length (splitlines abc_log) - 2) (splitlines abc_log)) =
     [py_str ''b'', py_str ''c'']"
  by (simp add: abc_log_facts decode_def py_str_def)

lemma bad_log_facts:
  "splitlines bad_log = [bad_line]" "decode bad_line = py_str ''ab''" "length bad_line = 3"
  by (simp_all add: bad_log_def bad_line_def splitlines_eval LF_def decode_def py_str_def)

lemma bad_log_run:
  "get_logs (example_fs bad_log) (py_str ''/var/log/app.log'') 1 =
     Some (Inr \<lparr>logfile = py_str ''/var/log/app.log'', lines = [py_str ''ab'']\<rparr>)"
  using get_logs_tail [of "example_fs bad_log" "py_str ''/var/log/app.log''" bad_log 1,
      OF example_fs_app]
  by (simp add: bad_log_facts example_path)

section \<open>The claims\<close>

text \<open>
  Throughout, the logical lines of a file of content \<open>c\<close> are \<open>splitlines c\<close>, and a
  readable regular file is a path that the file system maps to \<open>RegularFile True c\<close>:
  an ordinary file, whose size is the length of its content.
\<close>

text \<open>
  C1. For a readable regular file with at least \<open>n\<close> logical lines and
  \<open>1 \<le> n \<le> 500\<close>, the handler succeeds and returns exactly the last \<open>n\<close> logical
  lines of the file, each decoded, oldest first; the result has \<open>n\<close> entries.
\<close>

theorem tail_returns_last_lines:
  assumes "fs (str_of_path (Path fname)) = Some (RegularFile True c)"
    and "1 \<le> n" and "n \<le> 500" and "nat n \<le> length (splitlines c)"
  shows "\<exists>r. get_logs fs fname n = Some (Inr r)
    \<and> lines r = map decode (drop (length (splitlines c) - nat n) (splitlines c))
    \<and> int (length (lines r)) = n"
  using get_logs_tail [of fs fname c n, OF assms(1,2)] assms(2,4) by simp

theorem tail_returns_last_lines_witness:
  "\<exists>r. get_logs (example_fs (''a'' @ [LF] @ ''b'' @ [LF] @ ''c'' @ [LF]))
          (py_str ''/var/log/app.log'') 2 = Some (Inr r)
    \<and> lines r = [py_str ''b'', py_str ''c'']"
  using tail_returns_last_lines [of "example_fs (''a'' @ [LF] @ ''b'' @ [LF] @ ''c'' @ [LF])"
      "py_str ''/var/log/app.log''" "''a'' @ [LF] @ ''b'' @ [LF] @ ''c'' @ [LF]" 2,
      OF example_fs_app]
  by (auto simp: splitlines_eval LF_def decode_def py_str_def)

text \<open>
  C2, as the code has it. For a readable regular file and \<open>1 \<le> n \<le> 500\<close> the handler
  succeeds, whatever the bytes of the file, and returns one string for each of the last
  \<open>n\<close> lines (all of them when there are fewer): no line is left out. Each string is the
  line decoded with the handler that skips: a byte that cannot start a UTF-8 sequence,
  standing after ASCII text, is dropped and leaves nothing in its place, and the text
  before and after it is kept.
\<close>

theorem invalid_bytes_are_skipped:
  assumes "fs (str_of_path (Path fname)) = Some (RegularFile True c)"
    and "1 \<le> n" and "n \<le> 500"
  shows "\<exists>r. get_logs fs fname n = Some (Inr r)
    \<and> lines r = map decode (drop (length (splitlines c) - nat n) (splitlines c))
    \<and> length (lines r) = min (nat n) (length (splitlines c))
    \<and> (\<forall>xs b ys.
          (\<forall>x \<in> set xs. of_char x < (0x80::nat))
          \<and> ((0x80::nat) \<le> of_char b \<and> of_char b < (0xC2::nat) \<or> (0xF5::nat) \<le> of_char b)
          \<longrightarrow> decode (xs @ b # ys) = map of_char xs @ decode ys)"
proof -
  have "length (drop (length (splitlines c) - nat n) (splitlines c)) =
      min (nat n) (length (splitlines c))"
    by simp
  with get_logs_tail [of fs fname c n, OF assms(1,2)] decode_skips show ?thesis
    by simp
qed

theorem invalid_bytes_are_skipped_witness:
  "\<exists>r. get_logs (example_fs bad_log) (py_str ''/var/log/app.log'') 1 = Some (Inr r)
    \<and> lines r = [py_str ''ab'']
    \<and> length (lines r) = 1
    \<and> decode (''a'' @ CHR 0xFF # ''b'') = map of_char ''a'' @ decode ''b''"
proof -
  from invalid_bytes_are_skipped [of "example_fs bad_log" "py_str ''/var/log/app.log''" bad_log 1,
      OF example_fs_app]
  obtain r where r: "get_logs (example_fs bad_log) (py_str ''/var/log/app.log'') 1 = Some (Inr r)"
    "lines r = map decode (drop (length (splitlines bad_log) - nat 1) (splitlines bad_log))"
    "length (lines r) = min (nat 1) (length (splitlines bad_log))"
    and skip: "\<And>xs b ys. (\<forall>x \<in> set xs. of_char x < (0x80::nat))
          \<and> ((0x80::nat) \<le> of_char b \<and> of_char b < (0xC2::nat) \<or> (0xF5::nat) \<le> of_char b)
          \<Longrightarrow> decode (xs @ b # ys) = map of_char xs @ decode ys"
    by auto
  have "decode (''a'' @ CHR 0xFF # ''b'') = map of_char ''a'' @ decode ''b''"
    by (rule skip) simp
  with r show ?thesis by (auto simp: bad_log_facts)
qed

text \<open>
  C2, as the claim states it, fails: the line \<^verbatim>\<open>a\xffb\<close> comes back as the two
  characters \<^verbatim>\<open>ab\<close>. The invalid byte is not replaced by a placeholder, \<open>U+FFFD\<close> or
  any other: it is gone.
\<close>

theorem invalid_bytes_leave_no_placeholder:
  "get_logs (example_fs bad_log) (py_str ''/var/log/app.log'') 1 =
     Some (Inr \<lparr>logfile = py_str ''/var/log/app.log'', lines = [py_str ''ab'']\<rparr>)
   \<and> splitlines bad_log = [[CHR ''a'', CHR 0xFF, CHR ''b'']]
   \<and> length (py_str ''ab'') = 2
   \<and> REPLACEMENT_CHARACTER \<notin> set (py_str ''ab'')"
  using bad_log_run
  by (simp add: bad_log_facts bad_line_def [symmetric] py_str_def REPLACEMENT_CHARACTER_def)

text \<open>
  C3, as the code has it. Let the look at the path complete (the path does not lie below
  a directory that the caller may not search). Then the handler fails with 404 exactly
  when the path names no regular file, fails with 403 exactly when it names a regular
  file whose \<^verbatim>\<open>open\<close> raises \<^verbatim>\<open>PermissionError\<close>, and lets the error through, as a third
  kind of failure, exactly when it names a regular file on which \<^verbatim>\<open>open\<close> or the
  positioning at the end raises another \<^verbatim>\<open>OSError\<close>: only \<^verbatim>\<open>PermissionError\<close> is caught.
  It succeeds exactly when the path names an ordinary regular file that is open for
  reading, whatever its content and the number of lines asked for. It always returns, and
  these four are all its outcomes.
\<close>

theorem get_logs_outcomes:
  assumes "fs (str_of_path (Path fname)) \<noteq> Some Unreachable"
  shows
   "(get_logs fs fname n = Some (Inl (HTTPException 404 ''Log file not found''))
      \<longleftrightarrow> path_exists fs (Path fname) = Inr False \<or> is_file fs (Path fname) = Inr False)
   \<and> (get_logs fs fname n = Some (Inl (HTTPException 403 ''Permission denied''))
      \<longleftrightarrow> is_file fs (Path fname) = Inr True
          \<and> path_open fs (Path fname) = Inl PermissionError)
   \<and> (get_logs fs fname n = Some (Inl OSError)
      \<longleftrightarrow> is_file fs (Path fname) = Inr True
          \<and> (path_open fs (Path fname) = Inl OSError
             \<or> (\<exists>f. path_open fs (Path fname) = Inr f \<and> seek 0 SEEK_END f = Inl OSError)))
   \<and> ((\<exists>r. get_logs fs fname n = Some (Inr r))
      \<longleftrightarrow> (\<exists>c. fs (str_of_path (Path fname)) = Some (RegularFile True c)))
   \<and> (get_logs fs fname n = Some (Inl (HTTPException 404 ''Log file not found''))
      \<or> get_logs fs fname n = Some (Inl (HTTPException 403 ''Permission denied''))
      \<or> get_logs fs fname n = Some (Inl OSError)
      \<or> (\<exists>r. get_logs fs fname n = Some (Inr r)))"
proof (cases "fs (str_of_path (Path fname))")
  case None
  then show ?thesis
    by (simp add: get_logs_by_node path_exists_def is_file_def stat_def path_open_def)
next
  case (Some nd)
  with assms show ?thesis
    by (cases nd)
      (simp_all add: get_logs_by_node path_exists_def is_file_def stat_def path_open_def seek_def)
qed

theorem get_logs_outcomes_witness:
  "get_logs (example_fs ''x'') (py_str ''/var/log/none'') 50
      = Some (Inl (HTTPException 404 ''Log file not found''))
   \<and> get_logs (example_fs ''x'') (py_str ''/var/log'') 50
      = Some (Inl (HTTPException 404 ''Log file not found''))
   \<and> get_logs (example_fs ''x'') (py_str ''/etc/shadow'') 50
      = Some (Inl (HTTPException 403 ''Permission denied''))
   \<and> get_logs special_fs (py_str ''/mnt/stale/app.log'') 50 = Some (Inl OSError)
   \<and> (\<exists>r. get_logs (example_fs ''x'') (py_str ''/var/log/app.log'') 50 = Some (Inr r))"
  using get_logs_outcomes [of "example_fs ''x''" "py_str ''/var/log/none''" 50]
    get_logs_outcomes [of "example_fs ''x''" "py_str ''/var/log''" 50]
    get_logs_outcomes [of "example_fs ''x''" "py_str ''/etc/shadow''" 50]
    get_logs_outcomes [of special_fs "py_str ''/mnt/stale/app.log''" 50]
    get_logs_outcomes [of "example_fs ''x''" "py_str ''/var/log/app.log''" 50]
  by (simp add: path_exists_def is_file_def stat_def path_open_def example_paths example_path
      example_fs_nodes special_paths special_fs_nodes)

text \<open>
  C3, as the claim states it, fails: there is a third kind of failure. A log file below
  a directory that the caller may not search makes \<^verbatim>\<open>path.exists()\<close> raise
  \<^verbatim>\<open>PermissionError\<close> before the \<^verbatim>\<open>try\<close>, and \<^verbatim>\<open>/proc/cpuinfo\<close>, an existing
  regular file that opens for reading, makes the positioning at the end raise an
  \<^verbatim>\<open>OSError\<close> that is not caught. Neither call ends in 404, in 403 or in a result.
\<close>

theorem get_logs_third_outcome:
  "get_logs special_fs (py_str ''/srv/private/app.log'') 50 = Some (Inl PermissionError)
   \<and> get_logs special_fs (py_str ''/proc/cpuinfo'') 50 = Some (Inl OSError)
   \<and> is_file special_fs (Path (py_str ''/proc/cpuinfo'')) = Inr True
   \<and> (\<exists>f. path_open special_fs (Path (py_str ''/proc/cpuinfo'')) = Inr f)"
  by (simp add: get_logs_by_node is_file_def stat_def path_open_def special_paths special_fs_nodes)

text \<open>
  C4. Let the loop start at the end of a file of content \<open>c\<close> with an empty buffer, for
  \<open>1 \<le> n \<le> 500\<close>. It returns, the buffer is the file from the final position on, and
  either the position is 0 and the buffer is the whole file, or the buffer holds more than
  \<open>n\<close> newlines and so splits into at least \<open>n + 1\<close> lines. When the file has more than
  \<open>n\<close> lines, the lines returned are taken from the buffer's lines after the first: the
  first fragment of the buffer is never among them.
\<close>

theorem loop_exit_invariant:
  assumes "1 \<le> n" and "n \<le> 500"
  shows "\<exists>f' data.
      tail_loop n \<lparr>h_content = c, h_pos = length c, h_reads = r, h_seeks = k, h_seek_end = e\<rparr> [] = Some (Inr (f', data))
    \<and> data = drop (h_pos f') c
    \<and> ((tell f' = 0 \<and> data = c)
       \<or> (n < int (count_bytes data LF) \<and> nat n + 1 \<le> length (splitlines data)))
    \<and> (nat n < length (splitlines c) \<longrightarrow>
         (\<exists>m. slice_from (- n) (splitlines data) = drop m (tl (splitlines data))))"
proof -
  let ?s = "stop_pos n c (length c)"
  let ?f = "\<lparr>h_content = c, h_pos = ?s, h_reads = r + rounds n c (length c),
             h_seeks = k + 2 * rounds n c (length c), h_seek_end = e\<rparr>"
  let ?d = "drop ?s c"
  have run: "tail_loop n \<lparr>h_content = c, h_pos = length c, h_reads = r, h_seeks = k, h_seek_end = e\<rparr> [] =
      Some (Inr (?f, ?d))"
    using tail_loop_eq [of "length c" c n r k e] by simp
  have exit: "(tell ?f = 0 \<and> ?d = c)
       \<or> (n < int (count_bytes ?d LF) \<and> nat n + 1 \<le> length (splitlines ?d))"
  proof (cases "?s = 0")
    case True
    then show ?thesis by (simp add: tell_def)
  next
    case False
    with stop_pos_exit [of n c "length c"] have "n < int (count_bytes ?d LF)" by simp
    moreover from this count_LF_le_lines [of ?d] assms(1)
    have "nat n + 1 \<le> length (splitlines ?d)" by arith
    ultimately show ?thesis by simp
  qed
  have first: "\<exists>m. slice_from (- n) (splitlines ?d) = drop m (tl (splitlines ?d))"
    if "nat n < length (splitlines c)"
  proof -
    from exit that have len: "nat n < length (splitlines ?d)" by (auto simp: tell_def)
    then have "length (splitlines ?d) - nat n = Suc (length (splitlines ?d) - nat n - 1)"
      by simp
    then have "drop (length (splitlines ?d) - nat n) (splitlines ?d) =
        drop (length (splitlines ?d) - nat n - 1) (tl (splitlines ?d))"
      by (metis drop_Suc)
    then show ?thesis by (auto simp: slice_from_last [OF assms(1)])
  qed
  from run exit first show ?thesis by (intro exI [of _ ?f] exI [of _ ?d]) simp
qed

theorem loop_exit_invariant_witness:
  "\<exists>f' data.
      tail_loop 2 \<lparr>h_content = abc_log, h_pos = 6, h_reads = 0, h_seeks = 1, h_seek_end = True\<rparr> [] = Some (Inr (f', data))
    \<and> data = drop (h_pos f') abc_log
    \<and> (\<exists>m. slice_from (- 2) (splitlines data) = drop m (tl (splitlines data)))"
  using loop_exit_invariant [of 2 abc_log 0 1 True]
  by (simp add: abc_log_facts) blast

text \<open>
  C5. For a readable regular file with fewer than \<open>n\<close> logical lines and
  \<open>1 \<le> n \<le> 500\<close>, the handler succeeds and returns all the logical lines of the
  file, each decoded, oldest first, and nothing else: fewer than \<open>n\<close> entries. A final
  fragment without a line break is one of these lines: the content \<^verbatim>\<open>hello\<close> with
  \<open>n = 5\<close> gives the one line \<^verbatim>\<open>hello\<close> (the witness).
\<close>

theorem tail_short_file:
  assumes "fs (str_of_path (Path fname)) = Some (RegularFile True c)"
    and "1 \<le> n" and "n \<le> 500" and "length (splitlines c) < nat n"
  shows "\<exists>r. get_logs fs fname n = Some (Inr r)
    \<and> lines r = map decode (splitlines c)
    \<and> int (length (lines r)) < n"
  using get_logs_tail [of fs fname c n, OF assms(1,2)] assms(2,4) by simp

theorem tail_short_file_witness:
  "\<exists>r. get_logs (example_fs ''hello'') (py_str ''/var/log/app.log'') 5 = Some (Inr r)
    \<and> lines r = [py_str ''hello'']"
  using tail_short_file [of "example_fs ''hello''" "py_str ''/var/log/app.log''" "''hello''" 5,
      OF example_fs_app]
  by (auto simp: splitlines_eval LF_def decode_def py_str_def)

text \<open>
  C6. For a readable regular file of size 0 and every requested number of lines, the
  handler succeeds and the line sequence it returns is empty.
\<close>

theorem tail_empty_file:
  assumes "fs (str_of_path (Path fname)) = Some (RegularFile True [])"
  shows "get_logs fs fname n = Some (Inr \<lparr>logfile = str_of_path (Path fname), lines = []\<rparr>)"
  using get_logs_readable [of fs fname "[]" n, OF assms]
  by (simp add: stop_pos_0 slice_from_def)

theorem tail_empty_file_witness:
  "get_logs (example_fs []) (py_str ''/var/log/app.log'') 50 =
     Some (Inr \<lparr>logfile = py_str ''/var/log/app.log'', lines = []\<rparr>)"
  using tail_empty_file [of "example_fs []" "py_str ''/var/log/app.log''" 50, OF example_fs_app]
  by (simp add: example_path)

text \<open>
  C7. The loop returns, for every open file (whatever its size and position), every
  buffer and every number of lines asked for: \<^const>\<open>tail_loop\<close> is defined as a
  recursion that need not terminate, and its value is never \<open>None\<close>. Each iteration that
  completes leaves the position at most at the old one less \<open>min (tell f) block\<close>, a
  positive number of bytes, so strictly before it; when the position is inside the file
  the iteration completes and the position is exactly the old one less
  \<open>min (tell f) block\<close>. The number of newlines plays no part in this.
\<close>

theorem tail_loop_terminates:
  "(\<exists>r. tail_loop n f data = Some r)
   \<and> (0 < tell f \<longrightarrow>
        0 < min (tell f) block
        \<and> (\<forall>f' data'. loop_body f data = Inr (f', data') \<longrightarrow>
              tell f' \<le> tell f - min (tell f) block \<and> tell f' < tell f))
   \<and> (0 < tell f \<and> h_pos f \<le> length (h_content f) \<longrightarrow>
        (\<exists>f' data'. loop_body f data = Inr (f', data')
           \<and> tell f' = tell f - min (tell f) block))"
proof (intro conjI impI allI)
  show "\<exists>r. tail_loop n f data = Some r" by (rule tail_loop_returns)
next
  assume "0 < tell f"
  then show "0 < min (tell f) block" by (simp add: block_def)
next
  fix f' data'
  assume "0 < tell f" "loop_body f data = Inr (f', data')"
  then show "tell f' \<le> tell f - min (tell f) block" using loop_body_moves by blast
next
  fix f' data'
  assume "0 < tell f" "loop_body f data = Inr (f', data')"
  then show "tell f' < tell f" using loop_body_moves by blast
next
  assume a: "0 < tell f \<and> h_pos f \<le> length (h_content f)"
  let ?j = "min (h_pos f) 8192"
  have j: "?j \<le> h_pos f" by simp
  have jump: "min (tell f) block = int ?j" by (simp add: tell_def block_def min_def)
  from a have fits: "h_pos f - ?j + ?j \<le> length (h_content f)" by simp
  have s1: "seek (- int ?j) SEEK_CUR f = Inr (f\<lparr>h_pos := h_pos f - ?j, h_seeks := Suc (h_seeks f)\<rparr>)"
    by (simp add: seek_def tell_def nat_diff_distrib' min_def)
  have r1: "read (int ?j) (f\<lparr>h_pos := h_pos f - ?j, h_seeks := Suc (h_seeks f)\<rparr>) =
      (take ?j (drop (h_pos f - ?j) (h_content f)),
       f\<lparr>h_pos := h_pos f, h_seeks := Suc (h_seeks f), h_reads := Suc (h_reads f)\<rparr>)"
    using fits by (auto simp: read_def Let_def min_def)
  have s2: "seek (- int ?j) SEEK_CUR (f\<lparr>h_pos := h_pos f, h_seeks := Suc (h_seeks f), h_reads := Suc (h_reads f)\<rparr>)
      = Inr (f\<lparr>h_pos := h_pos f - ?j, h_seeks := Suc (Suc (h_seeks f)), h_reads := Suc (h_reads f)\<rparr>)"
    by (simp add: seek_def tell_def nat_diff_distrib' min_def)
  have "loop_body f data =
      Inr (f\<lparr>h_pos := h_pos f - ?j, h_seeks := Suc (Suc (h_seeks f)), h_reads := Suc (h_reads f)\<rparr>,
           take ?j (drop (h_pos f - ?j) (h_content f)) @ data)"
    unfolding loop_body_def jump Let_def by (simp only: s1 r1 s2 sum.case prod.case)
  moreover have "tell (f\<lparr>h_pos := h_pos f - ?j, h_seeks := Suc (Suc (h_seeks f)), h_reads := Suc (h_reads f)\<rparr>)
      = tell f - min (tell f) block"
    unfolding jump by (simp add: tell_def)
  ultimately show "\<exists>f' data'. loop_body f data = Inr (f', data') \<and> tell f' = tell f - min (tell f) block"
    by blast
qed

theorem tail_loop_terminates_witness:
  "(\<exists>r. tail_loop 5 \<lparr>h_content = ''hello'', h_pos = 5, h_reads = 0, h_seeks = 1, h_seek_end = True\<rparr> [] = Some r)
   \<and> 0 < tell \<lparr>h_content = ''hello'', h_pos = 5, h_reads = 0, h_seeks = 1, h_seek_end = True\<rparr>
   \<and> (\<exists>f' data'. loop_body \<lparr>h_content = ''hello'', h_pos = 5, h_reads = 0, h_seeks = 1, h_seek_end = True\<rparr> []
          = Inr (f', data') \<and> tell f' = 0)"
  using tail_loop_terminates [of 5 "\<lparr>h_content = ''hello'', h_pos = 5, h_reads = 0, h_seeks = 1, h_seek_end = True\<rparr>" "[]"]
  by (simp add: tell_def block_def)

text \<open>
  C8, as the code has it. From the end of a file, for \<open>n \<ge> 0\<close>, the loop makes \<open>m\<close>
  reads and \<open>2 * m\<close> seeks, where \<open>m\<close> is the length of the final buffer divided by 8192
  and rounded up; the buffer is never longer than the file; and the buffer without its
  first 8192 bytes holds at most \<open>n\<close> newlines. So the loop stops at the first step at
  which the buffer has more than \<open>n\<close> newlines, and what it reads is bounded by the
  length in bytes of the lines that carry the last \<open>n + 1\<close> newlines, not by \<open>n\<close>.
\<close>

theorem scan_cost:
  assumes "0 \<le> n"
  shows "\<exists>f' data m.
      tail_loop n \<lparr>h_content = c, h_pos = length c, h_reads = r, h_seeks = k, h_seek_end = e\<rparr> [] = Some (Inr (f', data))
    \<and> h_reads f' = r + m \<and> h_seeks f' = k + 2 * m
    \<and> length data \<le> length c
    \<and> length data \<le> 8192 * m \<and> 8192 * m < length data + 8192
    \<and> int (count_bytes (drop 8192 data) LF) \<le> n"
proof -
  let ?s = "stop_pos n c (length c)"
  let ?m = "rounds n c (length c)"
  let ?f = "\<lparr>h_content = c, h_pos = ?s, h_reads = r + ?m, h_seeks = k + 2 * ?m, h_seek_end = e\<rparr>"
  let ?d = "drop ?s c"
  have run: "tail_loop n \<lparr>h_content = c, h_pos = length c, h_reads = r, h_seeks = k, h_seek_end = e\<rparr> [] =
      Some (Inr (?f, ?d))"
    using tail_loop_eq [of "length c" c n r k e] by simp
  have len: "length ?d = length c - ?s" by simp
  from rounds_bytes [of "length c" n c]
  have b: "length ?d \<le> 8192 * ?m" "8192 * ?m < length ?d + 8192" by simp_all
  have over: "int (count_bytes (drop 8192 ?d) LF) \<le> n"
  proof -
    from stop_pos_overshoot [of n c "length c"] show ?thesis
    proof
      assume "?s = length c"
      with assms show ?thesis by (simp add: count_bytes_def)
    next
      assume "int (count_bytes (drop (?s + 8192) c) LF) \<le> n"
      then show ?thesis by (simp add: add.commute)
    qed
  qed
  from run b over show ?thesis
    by (intro exI [of _ ?f] exI [of _ ?d] exI [of _ ?m]) simp
qed


theorem scan_cost_witness:
  "\<exists>f' data m.
      tail_loop 2 \<lparr>h_content = abc_log, h_pos = 6, h_reads = 0, h_seeks = 1, h_seek_end = True\<rparr> [] = Some (Inr (f', data))
    \<and> h_reads f' = m \<and> h_seeks f' = 1 + 2 * m \<and> m \<le> 1 \<and> length data \<le> 6
    \<and> int (count_bytes (drop 8192 data) LF) \<le> 2"
proof -
  from scan_cost [of 2 abc_log 0 1 True] obtain f' data m where
    run: "tail_loop 2 \<lparr>h_content = abc_log, h_pos = 6, h_reads = 0, h_seeks = 1, h_seek_end = True\<rparr> [] = Some (Inr (f', data))"
    and cost: "h_reads f' = m" "h_seeks f' = 1 + 2 * m" "length data \<le> 6"
      "8192 * m < length data + 8192" "int (count_bytes (drop 8192 data) LF) \<le> 2"
    by (auto simp: abc_log_facts)
  from cost(3,4) have "m \<le> 1" by simp
  with run cost show ?thesis by blast
qed

text \<open>
  C8, as the claim states it, fails. For one requested line, on a file whose last line
  is the single byte \<^verbatim>\<open>a\<close> after a line of 40960 bytes, the handler returns that one
  line after 6 reads and 12 seeks, with all 40962 bytes of the file in the buffer. And no
  bound that ignores the file holds for one requested line: the number of reads and the
  length of the buffer exceed any given number on a file that is long enough.
\<close>

theorem scan_cost_grows_with_file:
  "get_logs (example_fs long_log) (py_str ''/var/log/app.log'') 1 =
     Some (Inr \<lparr>logfile = py_str ''/var/log/app.log'', lines = [py_str ''a'']\<rparr>)
   \<and> length long_log = 40962
   \<and> tail_loop 1 \<lparr>h_content = long_log, h_pos = 40962, h_reads = 0, h_seeks = 1, h_seek_end = True\<rparr> [] =
     Some (Inr (\<lparr>h_content = long_log, h_pos = 0, h_reads = 6, h_seeks = 13, h_seek_end = True\<rparr>, long_log))
   \<and> \<not> (\<exists>B. \<forall>c f' data.
          tail_loop 1 \<lparr>h_content = c, h_pos = length c, h_reads = 0, h_seeks = 1, h_seek_end = True\<rparr> [] = Some (Inr (f', data))
          \<longrightarrow> h_reads f' \<le> B \<and> length data \<le> B)"
proof (intro conjI)
  show "get_logs (example_fs long_log) (py_str ''/var/log/app.log'') 1 =
     Some (Inr \<lparr>logfile = py_str ''/var/log/app.log'', lines = [py_str ''a'']\<rparr>)"
    using get_logs_tail [of "example_fs long_log" "py_str ''/var/log/app.log''" long_log 1,
        OF example_fs_app]
    by (simp add: long_log_facts example_path decode_a)
  show "length long_log = 40962" by (rule long_log_facts)
  show "tail_loop 1 \<lparr>h_content = long_log, h_pos = 40962, h_reads = 0, h_seeks = 1, h_seek_end = True\<rparr> [] =
     Some (Inr (\<lparr>h_content = long_log, h_pos = 0, h_reads = 6, h_seeks = 13, h_seek_end = True\<rparr>, long_log))"
    using whole_file_read [of long_log 1 0 1 True] by (simp add: long_log_facts)
  show "\<not> (\<exists>B. \<forall>c f' data.
          tail_loop 1 \<lparr>h_content = c, h_pos = length c, h_reads = 0, h_seeks = 1, h_seek_end = True\<rparr> [] = Some (Inr (f', data))
          \<longrightarrow> h_reads f' \<le> B \<and> length data \<le> B)"
  proof
    assume "\<exists>B. \<forall>c f' data.
          tail_loop 1 \<lparr>h_content = c, h_pos = length c, h_reads = 0, h_seeks = 1, h_seek_end = True\<rparr> [] = Some (Inr (f', data))
          \<longrightarrow> h_reads f' \<le> B \<and> length data \<le> B"
    then obtain B where B: "\<And>c f' data.
          tail_loop 1 \<lparr>h_content = c, h_pos = length c, h_reads = 0, h_seeks = 1, h_seek_end = True\<rparr> [] = Some (Inr (f', data))
          \<Longrightarrow> h_reads f' \<le> B \<and> length data \<le> B"
      by blast
    let ?c = "replicate (Suc B) (CHR ''x'')"
    have "int (count_bytes ?c LF) \<le> 1" by (simp add: count_bytes_def LF_def)
    from B [OF whole_file_read [OF this, of 0 1 True]] show False by simp
  qed
qed

text \<open>
  C9, as the code has it. On success the \<open>file\<close> field is \<^verbatim>\<open>str(Path(file))\<close>: the
  requested path with its root kept (\<^verbatim>\<open>/\<close>, \<^verbatim>\<open>//\<close> or none) and its empty and
  \<^verbatim>\<open>.\<close> components dropped. Nothing else is changed: a relative path stays relative and
  a \<^verbatim>\<open>..\<close> stays where it is.
\<close>

theorem source_path_echo:
  assumes "get_logs fs fname n = Some (Inr r)"
  shows "logfile r = str_of_path (Path fname)
    \<and> root (Path fname) \<in> {[], [SEP], [SEP, SEP]}
    \<and> (\<forall>x \<in> set (parts (Path fname)). x \<noteq> [] \<and> x \<noteq> [DOT])"
proof -
  from get_logs_success [OF assms]
  obtain c where "fs (str_of_path (Path fname)) = Some (RegularFile True c)" by blast
  from get_logs_readable [of fs fname c n, OF this] assms
  have "logfile r = str_of_path (Path fname)" by auto
  moreover have "root (Path fname) \<in> {[], [SEP], [SEP, SEP]}"
    by (auto simp: Path_def splitroot_def Let_def split: prod.splits if_splits)
  moreover have "\<forall>x \<in> set (parts (Path fname)). x \<noteq> [] \<and> x \<noteq> [DOT]"
    by (auto simp: Path_def splitroot_def Let_def split: prod.splits if_splits)
  ultimately show ?thesis by blast
qed

theorem source_path_echo_witness:
  "logfile \<lparr>logfile = py_str ''/var/log/../log/app.log'', lines = [py_str ''x'']\<rparr>
     = str_of_path (Path (py_str ''/var//log/../log/./app.log''))"
  using source_path_echo [OF dotdot_run] by blast

text \<open>
  C9, as the claim states it, fails: the path \<^verbatim>\<open>/var//log/../log/./app.log\<close> is echoed as
  \<^verbatim>\<open>/var/log/../log/app.log\<close>, which is not canonical.
\<close>

theorem source_path_not_canonical:
  "get_logs dotdot_fs (py_str ''/var//log/../log/./app.log'') 1 =
     Some (Inr \<lparr>logfile = py_str ''/var/log/../log/app.log'', lines = [py_str ''x'']\<rparr>)
   \<and> \<not> canonical (py_str ''/var/log/../log/app.log'')"
proof -
  have "\<not> canonical (py_str ''/var/log/../log/app.log'')"
    by (simp add: canonical_def py_str_def SEP_def DOT_def)
  with dotdot_run show ?thesis by simp
qed

text \<open>
  C10. For a readable regular file and every number of lines asked for, the handler
  succeeds and no returned line contains the character \<open>U+000A\<close> (\<^verbatim>\<open>\n\<close>) or
  \<open>U+000D\<close> (\<^verbatim>\<open>\r\<close>): the split takes both out, as single breaks and as the pair,
  and decoding brings none in.
\<close>

theorem returned_lines_have_no_breaks:
  assumes "fs (str_of_path (Path fname)) = Some (RegularFile True c)"
  shows "\<exists>r. get_logs fs fname n = Some (Inr r)
    \<and> (\<forall>l \<in> set (lines r). 0x0A \<notin> set l \<and> 0x0D \<notin> set l)"
proof -
  define raw where "raw = slice_from (- n) (splitlines (drop (stop_pos n c (length c)) c))"
  have clean: "0x0A \<notin> set (decode l) \<and> 0x0D \<notin> set (decode l)" if "l \<in> set raw" for l
  proof -
    have "set raw \<subseteq> set (splitlines (drop (stop_pos n c (length c)) c))"
      unfolding raw_def by (rule set_slice_from)
    with that have "l \<in> set (splitlines (drop (stop_pos n c (length c)) c))" ..
    then have "\<forall>ch \<in> set l. \<not> is_linebreak ch"
      by (intro ballI) (rule splitlines_no_break)
    then show ?thesis by (rule decode_no_break)
  qed
  have run: "get_logs fs fname n =
      Some (Inr \<lparr>logfile = str_of_path (Path fname), lines = map decode raw\<rparr>)"
    unfolding raw_def by (rule get_logs_readable [of fs fname c n, OF assms])
  have "\<forall>l \<in> set (lines \<lparr>logfile = str_of_path (Path fname), lines = map decode raw\<rparr>).
      0x0A \<notin> set l \<and> 0x0D \<notin> set l"
    using clean by auto
  with run show ?thesis by blast
qed

theorem returned_lines_have_no_breaks_witness:
  "\<exists>r. get_logs (example_fs abc_log) (py_str ''/var/log/app.log'') 2 = Some (Inr r)
    \<and> lines r = [py_str ''b'', py_str ''c'']
    \<and> 0x0A \<notin> set (py_str ''b'') \<and> 0x0D \<notin> set (py_str ''b'')
    \<and> 0x0A \<notin> set (py_str ''c'') \<and> 0x0D \<notin> set (py_str ''c'')"
  using returned_lines_have_no_breaks [of "example_fs abc_log" "py_str ''/var/log/app.log''" abc_log 2,
      OF example_fs_app]
    get_logs_tail [of "example_fs abc_log" "py_str ''/var/log/app.log''" abc_log 2, OF example_fs_app]
  by (simp add: abc_lines)

end
